theory Spec2Isabelle
  imports Main "HOL-Library.Sublist"
begin

section \<open>JavaScript strings and the character classes of the patterns\<close>

text \<open>
  A JavaScript string is modelled as the list of the codes of its characters (natural
  numbers), so that the non-Latin characters named in the tag pattern can be written
  down. The patterns of the Span Matcher run in Unicode mode (flag \<open>u\<close>), where one
  position is one code point; elsewhere a position is a code unit, which is the same for
  all characters of the Basic Multilingual Plane. \<open>str\<close> turns an ASCII literal into
  such a list.
\<close>

type_synonym jsstring = "nat list"

definition str :: "string \<Rightarrow> jsstring" where
  "str s = map of_char s"

text \<open>The class \<open>\s\<close> of ECMAScript: white space and line terminators.\<close>

definition is_space :: "nat \<Rightarrow> bool" where
  "is_space c \<longleftrightarrow>
     c \<in> {9, 10, 11, 12, 13, 32, 160, 5760, 8232, 8233, 8239, 8287, 12288, 65279}
     \<or> (8192 \<le> c \<and> c \<le> 8202)"

text \<open>The line terminators, which \<open>.\<close> does not match (no flag \<open>s\<close>).\<close>

definition is_line_terminator :: "nat \<Rightarrow> bool" where
  "is_line_terminator c \<longleftrightarrow> c \<in> {10, 13, 8232, 8233}"

text \<open>
  The characters listed in the negated class of \<open>tagRe\<close>, after \<open>\s\<close>, in the order
  of the source: comma, full stop, colon, semicolon, ellipsis, exclamation and question
  mark, the three ASCII quotes, guillemets, curly quotes, em and en dash, and
  \<open>@ $ % & * # ^ + ~\<close>, the division sign, \<open>\ / | < = > [ ] ( ) { }\<close>.
\<close>

definition tag_excluded :: "nat list" where
  "tag_excluded =
     [44, 46, 58, 59, 8230, 33, 63, 34, 39, 96, 187, 171, 8220, 8221, 8216, 8217,
      8212, 8211, 64, 36, 37, 38, 42, 35, 94, 43, 126, 247, 92, 47, 124, 60, 61, 62,
      91, 93, 40, 41, 123, 125]"

definition tag_char :: "nat \<Rightarrow> bool" where
  "tag_char c \<longleftrightarrow> \<not> is_space c \<and> c \<notin> set tag_excluded"

definition hash :: nat where
  "hash = 35"

section \<open>The Span Matcher: \<open>getInlineDecorator\<close>\<close>

subsection \<open>The highlight alternative \<open>(::.+?::|==.+?==)\<close>\<close>

text \<open>
  \<open>dot_lazy d cs\<close> continues a lazy \<open>.+?\<close> that has already consumed one character and
  is followed by the delimiter \<open>d\<close>: at each position the delimiter is tried first, and
  only when it does not match is one more character (not a line terminator) consumed.
  The result is the number of characters consumed, closing delimiter included.
\<close>

fun dot_lazy :: "jsstring \<Rightarrow> jsstring \<Rightarrow> nat option" where
  "dot_lazy d [] = None"
| "dot_lazy d (c # cs) =
     (if prefix d (c # cs) then Some (length d)
      else if is_line_terminator c then None
      else map_option Suc (dot_lazy d cs))"

text \<open>\<open>d.+?d\<close> at the start of \<open>cs\<close>: the length of the match, if any.\<close>

definition delimited :: "jsstring \<Rightarrow> jsstring \<Rightarrow> nat option" where
  "delimited d cs =
     (if prefix d cs then
        (case drop (length d) cs of
           [] \<Rightarrow> None
         | c # rest \<Rightarrow>
             if is_line_terminator c then None
             else map_option (\<lambda>n. length d + 1 + n) (dot_lazy d rest))
      else None)"

definition highlightRe :: "jsstring \<Rightarrow> nat option" where
  "highlightRe cs =
     (case delimited (str ''::'') cs of
        Some n \<Rightarrow> Some n
      | None \<Rightarrow> delimited (str ''=='') cs)"

subsection \<open>The tag alternative\<close>

text \<open>
  The lookbehind \<open>(?<=^|\s|[({[])\<close>: the character before the match, \<open>None\<close> at the
  start of the text.
\<close>

definition lookbehind :: "nat option \<Rightarrow> bool" where
  "lookbehind prev =
     (case prev of
        None \<Rightarrow> True
      | Some p \<Rightarrow> is_space p \<or> p \<in> {40, 123, 91})"

text \<open>
  \<open>#(#?[^...]+#?)\<close> at the start of \<open>cs\<close>. The greedy \<open>#?\<close> takes a second \<open>#\<close> when
  there is one; giving it back cannot help, because the class excludes \<open>#\<close>. The greedy
  \<open>+\<close> takes the longest run of class characters, and the final \<open>#?\<close> a closing \<open>#\<close>
  when it follows the run.
\<close>

definition optional_hash :: "jsstring \<Rightarrow> nat" where
  "optional_hash cs = (case cs of [] \<Rightarrow> 0 | c # _ \<Rightarrow> if c = hash then 1 else 0)"

definition tagRe :: "nat option \<Rightarrow> jsstring \<Rightarrow> nat option" where
  "tagRe prev cs =
     (case cs of
        [] \<Rightarrow> None
      | c # r1 \<Rightarrow>
          if \<not> lookbehind prev \<or> c \<noteq> hash then None
          else
            let r2 = drop (optional_hash r1) r1;
                run = takeWhile tag_char r2;
                r3 = drop (length run) r2
            in if run = [] then None
               else Some (1 + optional_hash r1 + length run + optional_hash r3))"

subsection \<open>The combined expression and the global search\<close>

text \<open>
  Which alternative of \<open>highlightRe|tagRe\<close> matched: the callback of the source reads it
  off the first capture group (\<open>m[1] !== undefined\<close>).
\<close>

datatype alternative = Highlight | Tag

record match =
  index :: nat
  len :: nat
  alt :: alternative

definition prev_char :: "jsstring \<Rightarrow> nat \<Rightarrow> nat option" where
  "prev_char s i = (if i = 0 then None else Some (s ! (i - 1)))"

definition match_at :: "jsstring \<Rightarrow> nat \<Rightarrow> match option" where
  "match_at s i =
     (case highlightRe (drop i s) of
        Some n \<Rightarrow> Some \<lparr>index = i, len = n, alt = Highlight\<rparr>
      | None \<Rightarrow>
          (case tagRe (prev_char s i) (drop i s) of
             Some n \<Rightarrow> Some \<lparr>index = i, len = n, alt = Tag\<rparr>
           | None \<Rightarrow> None))"

text \<open>
  \<open>RegExp.prototype.exec\<close> with \<open>lastIndex = i\<close>: the leftmost match at or after \<open>i\<close>.
  No alternative matches the empty text, so no match starts at the end of the text.
\<close>

function exec :: "jsstring \<Rightarrow> nat \<Rightarrow> match option" where
  "exec s i =
     (if length s \<le> i then None
      else (case match_at s i of
              Some m \<Rightarrow> Some m
            | None \<Rightarrow> exec s (Suc i)))"
  by pat_completeness auto
termination
  by (relation "measure (\<lambda>(s, i). length s - i)") auto

declare exec.simps [simp del]

lemma exec_Some:
  "exec s i = Some m \<Longrightarrow> i \<le> index m \<and> index m < length s \<and> match_at s (index m) = Some m"
proof (induction s i rule: exec.induct)
  case (1 s i)
  show ?case
  proof (cases "match_at s i")
    case None
    with "1.prems" have "exec s (Suc i) = Some m" "i < length s"
      by (auto simp: exec.simps [of s i] split: if_splits)
    with "1.IH" None show ?thesis by fastforce
  next
    case (Some m')
    with "1.prems" have "m' = m" "i < length s"
      by (auto simp: exec.simps [of s i] split: if_splits)
    moreover from Some have "index m' = i"
      by (auto simp: match_at_def split: option.splits)
    ultimately show ?thesis using Some by simp
  qed
qed

lemma dot_lazy_pos: "dot_lazy d cs = Some n \<Longrightarrow> d \<noteq> [] \<Longrightarrow> 0 < n"
  by (induction cs arbitrary: n) (auto split: if_splits)

lemma match_at_len_pos: "match_at s i = Some m \<Longrightarrow> 0 < len m"
  by (auto simp: match_at_def highlightRe_def delimited_def tagRe_def Let_def
      split: option.splits list.splits if_splits)

text \<open>
  The loop of the match decorator over one piece of text: \<open>exec\<close> is called again from
  the end of the previous match (\<open>lastIndex\<close>) until it fails.
\<close>

function matches_from :: "jsstring \<Rightarrow> nat \<Rightarrow> match list" where
  "matches_from s i =
     (case exec s i of
        None \<Rightarrow> []
      | Some m \<Rightarrow> m # matches_from s (index m + len m))"
  by pat_completeness auto
termination
proof (relation "measure (\<lambda>(s, i). length s - i)")
  show "wf (measure (\<lambda>(s, i). length s - i))" by simp
next
  fix s :: jsstring and i :: nat and m :: match
  assume "exec s i = Some m"
  then have "i \<le> index m" "index m < length s" "0 < len m"
    using exec_Some [of s i m] match_at_len_pos [of s "index m" m] by auto
  then show "((s, index m + len m), (s, i)) \<in> measure (\<lambda>(s, i). length s - i)"
    by simp
qed

declare matches_from.simps [simp del]

text \<open>
  Decorations of the editor: \<open>Decoration.mark\<close> styles a range of characters and
  \<open>Decoration.line\<close> the line that starts at the position it is anchored at; both carry
  the class attribute given in the source. \<open>d.range(from, to)\<close> places a decoration, with
  \<open>to = from\<close> when omitted.
\<close>

datatype Decoration = Mark string | Line string

record range =
  rfrom :: nat
  rto :: nat
  rvalue :: Decoration

definition tagDeco :: Decoration where
  "tagDeco = Mark ''cm-zkn-tag''"

definition highlightDeco :: Decoration where
  "highlightDeco = Mark ''cm-highlight''"

text \<open>
  The decoration the callback of the source returns for a match, and the marked range
  \<open>[from, to)\<close> the decorator adds for it.
\<close>

definition decoration :: "match \<Rightarrow> Decoration" where
  "decoration m = (if alt m = Highlight then highlightDeco else tagDeco)"

definition createDeco :: "jsstring \<Rightarrow> range list" where
  "createDeco s =
     map (\<lambda>m. \<lparr>rfrom = index m, rto = index m + len m, rvalue = decoration m\<rparr>)
       (matches_from s 0)"

text \<open>The text of a match, and the texts of all matches of one alternative.\<close>

definition matched_text :: "jsstring \<Rightarrow> match \<Rightarrow> jsstring" where
  "matched_text s m = take (len m) (drop (index m) s)"

definition matches_of :: "alternative \<Rightarrow> jsstring \<Rightarrow> jsstring list" where
  "matches_of a s = map (matched_text s) (filter (\<lambda>m. alt m = a) (matches_from s 0))"

subsection \<open>Evaluation and shape of the matches\<close>


lemmas span_eval =
  matches_of_def matched_text_def createDeco_def decoration_def highlightDeco_def
  tagDeco_def matches_from.simps
  exec.simps match_at_def highlightRe_def delimited_def tagRe_def str_def prev_char_def
  lookbehind_def optional_hash_def hash_def tag_char_def tag_excluded_def is_space_def
  is_line_terminator_def

lemma matches_from_match_at:
  "m \<in> set (matches_from s i) \<Longrightarrow> match_at s (index m) = Some m"
proof (induction s i rule: matches_from.induct)
  case (1 s i)
  show ?case
  proof (cases "exec s i")
    case None
    with "1.prems" show ?thesis by (simp add: matches_from.simps [of s i])
  next
    case (Some m')
    with "1.prems" have "m = m' \<or> m \<in> set (matches_from s (index m' + len m'))"
      by (simp add: matches_from.simps [of s i])
    then show ?thesis
    proof
      assume "m = m'"
      with Some show ?thesis using exec_Some [of s i m'] by simp
    next
      assume "m \<in> set (matches_from s (index m' + len m'))"
      with "1.IH" Some show ?thesis by simp
    qed
  qed
qed

lemma optional_hash_take:
  "take (optional_hash cs) cs = [] \<or> take (optional_hash cs) cs = [hash]"
  by (cases cs) (auto simp: optional_hash_def)

lemma tagRe_Some:
  assumes "tagRe prev cs = Some n"
  shows "lookbehind prev \<and>
    (\<exists>h1 run h2. take n cs = hash # h1 @ run @ h2 \<and> (h1 = [] \<or> h1 = [hash]) \<and>
       run \<noteq> [] \<and> (\<forall>c \<in> set run. tag_char c) \<and> (h2 = [] \<or> h2 = [hash]))"
proof -
  from assms obtain c r1 where cs: "cs = c # r1"
    by (cases cs) (auto simp: tagRe_def)
  define r2 where "r2 = drop (optional_hash r1) r1"
  define run where "run = takeWhile tag_char r2"
  define r3 where "r3 = drop (length run) r2"
  from assms cs have lb: "lookbehind prev" and c: "c = hash" and run: "run \<noteq> []"
    and n: "n = 1 + optional_hash r1 + length run + optional_hash r3"
    by (auto simp: tagRe_def Let_def r2_def run_def r3_def split: if_splits)
  have "r2 = run @ r3"
    by (simp add: run_def r3_def flip: dropWhile_eq_drop)
  then have "take (length run + optional_hash r3) r2 = run @ take (optional_hash r3) r3"
    by simp
  then have "take (optional_hash r1 + (length run + optional_hash r3)) r1 =
      take (optional_hash r1) r1 @ run @ take (optional_hash r3) r3"
    by (simp add: take_add r2_def)
  with cs c n have "take n cs = hash # take (optional_hash r1) r1 @ run @ take (optional_hash r3) r3"
    by (simp add: add.assoc)
  moreover have "\<forall>c \<in> set run. tag_char c"
    by (auto simp: run_def dest: set_takeWhileD)
  ultimately show ?thesis
    using lb run optional_hash_take [of r1] optional_hash_take [of r3] by blast
qed

lemma match_at_Tag:
  "match_at s i = Some m \<Longrightarrow> alt m = Tag \<Longrightarrow>
     index m = i \<and> tagRe (prev_char s i) (drop i s) = Some (len m)"
  by (auto simp: match_at_def split: option.splits)

lemma match_at_Highlight:
  "match_at s i = Some m \<Longrightarrow> alt m = Highlight \<Longrightarrow>
     index m = i \<and> highlightRe (drop i s) = Some (len m)"
  by (auto simp: match_at_def split: option.splits)

subsection \<open>Tag matches\<close>

text \<open>
  C3 (as amended). Every tag match of the Span Matcher starts at a \<open>#\<close> that is at the
  start of the text or directly after a white-space character or one of \<open>( { [\<close>. The
  matched text is that \<open>#\<close>, an optional second \<open>#\<close>, one or more characters outside the
  excluded class of the pattern (white space and the listed punctuation), and an optional
  closing \<open>#\<close>. The text \<open>see #project-a and #sub#\<close> yields exactly the tag matches
  \<open>#project-a\<close> and \<open>#sub#\<close>, the texts \<open>price is 5#3\<close> and \<open>x#tag\<close> yield none, and
  \<open>(#tag)\<close> yields \<open>#tag\<close>.
\<close>

theorem tag_matches:
  "(\<forall>m \<in> set (matches_from s 0). alt m = Tag \<longrightarrow>
      (index m = 0 \<or> is_space (s ! (index m - 1)) \<or> s ! (index m - 1) \<in> set (str ''({['')) \<and>
      (\<exists>h1 run h2. matched_text s m = hash # h1 @ run @ h2 \<and> (h1 = [] \<or> h1 = [hash]) \<and>
         run \<noteq> [] \<and> (\<forall>c \<in> set run. tag_char c) \<and> (h2 = [] \<or> h2 = [hash])))
   \<and> matches_of Tag (str ''see #project-a and #sub#'') = [str ''#project-a'', str ''#sub#'']
   \<and> matches_of Tag (str ''price is 5#3'') = []
   \<and> matches_of Tag (str ''x#tag'') = []
   \<and> matches_of Tag (str ''(#tag)'') = [str ''#tag'']"
proof (intro conjI ballI impI)
  fix m
  assume m: "m \<in> set (matches_from s 0)" and t: "alt m = Tag"
  from matches_from_match_at [OF m] t
  have "tagRe (prev_char s (index m)) (drop (index m) s) = Some (len m)"
    using match_at_Tag by blast
  from tagRe_Some [OF this]
  show "index m = 0 \<or> is_space (s ! (index m - 1)) \<or> s ! (index m - 1) \<in> set (str ''({['')"
    and "\<exists>h1 run h2. matched_text s m = hash # h1 @ run @ h2 \<and> (h1 = [] \<or> h1 = [hash]) \<and>
         run \<noteq> [] \<and> (\<forall>c \<in> set run. tag_char c) \<and> (h2 = [] \<or> h2 = [hash])"
    by (auto simp: lookbehind_def prev_char_def matched_text_def str_def split: if_splits)
qed (simp_all add: span_eval)

theorem tag_matches_witness:
  "\<lparr>index = 1, len = 4, alt = Tag\<rparr> \<in> set (matches_from (str ''(#tag)'') 0)
   \<and> str ''(#tag)'' ! (1 - 1) \<in> set (str ''({['')
   \<and> matched_text (str ''(#tag)'') \<lparr>index = 1, len = 4, alt = Tag\<rparr> = hash # [] @ str ''tag'' @ []"
  using tag_matches [of "str ''(#tag)''"] by (simp add: span_eval)

text \<open>
  Without the optional second \<open>#\<close> the description fails: in \<open>##tag\<close> the whole text is
  one tag match, and the character following its first \<open>#\<close> is a \<open>#\<close>, which the class
  excludes.
\<close>

theorem tag_second_hash_counterexample:
  "matches_from (str ''##tag'') 0 = [\<lparr>index = 0, len = 5, alt = Tag\<rparr>]
   \<and> matched_text (str ''##tag'') \<lparr>index = 0, len = 5, alt = Tag\<rparr> = hash # hash # str ''tag''
   \<and> \<not> tag_char hash"
  by (simp add: span_eval)

subsection \<open>Highlight matches\<close>

text \<open>
  The lazy \<open>.+?\<close> stops at the first closing delimiter: a match of \<open>d.+?d\<close> is the
  opening delimiter, a non-empty interior without line terminators in which the
  delimiter does not start again after the first character, and the delimiter. And
  wherever a delimited text stands, the pattern matches.
\<close>

lemma dot_lazy_first:
  assumes "d \<noteq> []" "dot_lazy d cs = Some n"
  shows "\<exists>inner rest. cs = inner @ d @ rest \<and> n = length inner + length d \<and>
           (\<forall>c \<in> set inner. \<not> is_line_terminator c) \<and>
           (\<forall>k < length inner. \<not> prefix d (drop k cs))"
  using assms(2)
proof (induction cs arbitrary: n)
  case Nil
  then show ?case by simp
next
  case (Cons c cs)
  show ?case
  proof (cases "prefix d (c # cs)")
    case True
    with Cons.prems have "n = length d" by simp
    moreover from True obtain rest where "c # cs = d @ rest" by (auto simp: prefix_def)
    ultimately show ?thesis by (intro exI [of _ "[]"] exI [of _ rest]) simp
  next
    case False
    with Cons.prems obtain k where k: "dot_lazy d cs = Some k" "n = Suc k"
      and c: "\<not> is_line_terminator c"
      by (auto split: if_splits)
    from Cons.IH [OF k(1)] obtain inner rest where i:
      "cs = inner @ d @ rest" "k = length inner + length d"
      "\<forall>c \<in> set inner. \<not> is_line_terminator c"
      "\<forall>k < length inner. \<not> prefix d (drop k cs)" by blast
    have "\<not> prefix d (drop j (c # cs))" if "j < length (c # inner)" for j
      using that False i(4) by (cases j) simp_all
    with i k c show ?thesis
      by (intro exI [of _ "c # inner"] exI [of _ rest]) simp
  qed
qed

lemma dot_lazy_complete:
  assumes "d \<noteq> []" "\<forall>c \<in> set inner. \<not> is_line_terminator c"
  shows "\<exists>n. dot_lazy d (inner @ d @ rest) = Some n \<and> n \<le> length inner + length d"
  using assms(2)
proof (induction inner)
  case Nil
  from assms(1) obtain c cs where "d @ rest = c # cs" by (cases d) auto
  moreover have "prefix d (d @ rest)" by simp
  ultimately show ?case by simp
next
  case (Cons c inner)
  then obtain n where "dot_lazy d (inner @ d @ rest) = Some n" "n \<le> length inner + length d"
    by auto
  with Cons.prems show ?case by simp
qed

lemma delimited_first:
  assumes "d \<noteq> []" "delimited d cs = Some n"
  shows "\<exists>inner rest. cs = d @ inner @ d @ rest \<and> n = length (d @ inner @ d) \<and>
           inner \<noteq> [] \<and> (\<forall>c \<in> set inner. \<not> is_line_terminator c) \<and>
           (\<forall>k. 1 \<le> k \<and> k < length inner \<longrightarrow> \<not> prefix d (drop (length d + k) cs))"
proof -
  from assms have p: "prefix d cs" by (auto simp: delimited_def split: if_splits)
  then obtain r where cs: "cs = d @ r" by (auto simp: prefix_def)
  with assms obtain c rest k where r: "r = c # rest" and c: "\<not> is_line_terminator c"
    and k: "dot_lazy d rest = Some k" and n: "n = length d + 1 + k"
    by (auto simp: delimited_def split: if_splits list.splits)
  from dot_lazy_first [OF assms(1) k] obtain inner rest' where i:
    "rest = inner @ d @ rest'" "k = length inner + length d"
    "\<forall>c \<in> set inner. \<not> is_line_terminator c"
    "\<forall>k < length inner. \<not> prefix d (drop k rest)" by blast
  have "\<not> prefix d (drop (length d + j) cs)" if "1 \<le> j" "j < length (c # inner)" for j
  proof -
    from that obtain j' where "j = Suc j'" "j' < length inner" by (cases j) auto
    with i(4) show ?thesis by (simp add: cs r)
  qed
  with cs r c n i show ?thesis
    by (intro exI [of _ "c # inner"] exI [of _ rest']) simp
qed

lemma delimited_complete:
  assumes "d \<noteq> []" "inner \<noteq> []" "\<forall>c \<in> set inner. \<not> is_line_terminator c"
  shows "\<exists>n. delimited d (d @ inner @ d @ rest) = Some n \<and> n \<le> length (d @ inner @ d)"
proof -
  from assms(2) obtain c inner' where inner: "inner = c # inner'" by (cases inner) auto
  with assms(3) have "\<forall>c \<in> set inner'. \<not> is_line_terminator c" and c: "\<not> is_line_terminator c"
    by auto
  from dot_lazy_complete [OF assms(1) this(1), of rest] obtain n where
    "dot_lazy d (inner' @ d @ rest) = Some n" "n \<le> length inner' + length d" by blast
  with c show ?thesis by (simp add: delimited_def inner)
qed

lemma highlightRe_complete:
  assumes "d = str ''::'' \<or> d = str ''==''" "inner \<noteq> []"
    "\<forall>c \<in> set inner. \<not> is_line_terminator c"
  shows "\<exists>n. highlightRe (d @ inner @ d @ rest) = Some n \<and> n \<le> length (d @ inner @ d)"
proof -
  from assms(1) have d: "d \<noteq> []" by (auto simp: str_def)
  from delimited_complete [OF d assms(2,3), of rest] obtain n where
    n: "delimited d (d @ inner @ d @ rest) = Some n" "n \<le> length (d @ inner @ d)" by blast
  from assms(1) show ?thesis
  proof
    assume "d = str ''::''"
    with n show ?thesis by (simp add: highlightRe_def)
  next
    assume e: "d = str ''==''"
    then have "delimited (str ''::'') (d @ inner @ d @ rest) = None"
      by (simp add: delimited_def str_def)
    with n e show ?thesis by (simp add: highlightRe_def)
  qed
qed

lemma highlightRe_first:
  assumes "highlightRe cs = Some n"
  shows "\<exists>d inner rest. (d = str ''::'' \<or> d = str ''=='') \<and> cs = d @ inner @ d @ rest \<and>
           n = length (d @ inner @ d) \<and> inner \<noteq> [] \<and>
           (\<forall>c \<in> set inner. \<not> is_line_terminator c) \<and>
           (\<forall>k. 1 \<le> k \<and> k < length inner \<longrightarrow> \<not> prefix d (drop (2 + k) cs))"
proof -
  have ne: "str ''::'' \<noteq> []" "str ''=='' \<noteq> []" by (simp_all add: str_def)
  have len: "length (str ''::'') = 2" "length (str ''=='') = 2" by (simp_all add: str_def)
  show ?thesis
  proof (cases "delimited (str ''::'') cs")
    case None
    with assms have "delimited (str ''=='') cs = Some n" by (simp add: highlightRe_def)
    from delimited_first [OF ne(2) this] show ?thesis unfolding len by blast
  next
    case (Some k)
    with assms have "delimited (str ''::'') cs = Some n" by (simp add: highlightRe_def)
    from delimited_first [OF ne(1) this] show ?thesis unfolding len by blast
  qed
qed

lemma match_at_index: "match_at s i = Some m \<Longrightarrow> index m = i \<and> i < length s"
  by (cases "i < length s")
     (auto simp: match_at_def highlightRe_def delimited_def tagRe_def str_def
        split: option.splits)

lemma exec_leftmost:
  "i \<le> j \<Longrightarrow> match_at s j = Some m \<Longrightarrow> \<exists>m'. exec s i = Some m' \<and> index m' \<le> j"
proof (induction s i rule: exec.induct)
  case (1 s i)
  from "1.prems" have j: "j < length s" using match_at_index by blast
  show ?case
  proof (cases "match_at s i")
    case None
    with "1.prems" have "i \<noteq> j" by auto
    with "1.prems" have "Suc i \<le> j" by simp
    with "1.IH" None "1.prems" j obtain m' where "exec s (Suc i) = Some m'" "index m' \<le> j"
      by fastforce
    with None j "1.prems" show ?thesis by (simp add: exec.simps [of s i])
  next
    case (Some m')
    then have "index m' = i" using match_at_index by blast
    with Some j "1.prems" show ?thesis by (simp add: exec.simps [of s i])
  qed
qed

lemma matches_from_cover:
  "i \<le> j \<Longrightarrow> match_at s j = Some m \<Longrightarrow>
     m \<in> set (matches_from s i) \<or>
     (\<exists>m' \<in> set (matches_from s i). index m' < j \<and> j < index m' + len m')"
proof (induction s i rule: matches_from.induct)
  case (1 s i)
  from exec_leftmost [OF "1.prems"] obtain m' where m': "exec s i = Some m'" "index m' \<le> j"
    by blast
  then have mf: "matches_from s i = m' # matches_from s (index m' + len m')"
    by (simp add: matches_from.simps [of s i])
  from exec_Some [OF m'(1)] have at: "match_at s (index m') = Some m'" by simp
  consider "index m' = j" | "index m' < j" "j < index m' + len m'" | "index m' + len m' \<le> j"
    using m'(2) by linarith
  then show ?case
  proof cases
    case 1
    with at "1.prems" have "m' = m" by simp
    then show ?thesis by (simp add: mf)
  next
    case 2
    then show ?thesis by (auto simp: mf)
  next
    case 3
    from "1.IH" [OF m'(1) 3 "1.prems"(2)] show ?thesis by (auto simp: mf)
  qed
qed

lemma tag_match_chars:
  assumes "match_at s i = Some m" "alt m = Tag" "i \<le> j" "j < i + len m" "j < length s"
  shows "s ! j = hash \<or> tag_char (s ! j)"
proof -
  from match_at_Tag [OF assms(1,2)] have t: "tagRe (prev_char s i) (drop i s) = Some (len m)"
    by simp
  from tagRe_Some [OF t] obtain h1 run h2 where
    tk: "take (len m) (drop i s) = hash # h1 @ run @ h2" and
    h: "h1 = [] \<or> h1 = [hash]" "h2 = [] \<or> h2 = [hash]" "\<forall>c \<in> set run. tag_char c"
    by blast
  from assms(3,4,5) have "s ! j = take (len m) (drop i s) ! (j - i)" by simp
  moreover from assms(3,4,5) have "j - i < length (take (len m) (drop i s))" by auto
  ultimately have "s ! j \<in> set (take (len m) (drop i s))"
    using nth_mem by metis
  with tk h show ?thesis by auto
qed


lemma createDeco_highlight:
  assumes "r \<in> set (createDeco s)" "rvalue r = highlightDeco"
  shows "\<exists>m. m \<in> set (matches_from s 0) \<and> alt m = Highlight \<and>
           rfrom r = index m \<and> rto r = index m + len m"
proof -
  from assms(1) obtain m where m: "m \<in> set (matches_from s 0)"
    and r: "r = \<lparr>rfrom = index m, rto = index m + len m, rvalue = decoration m\<rparr>"
    by (auto simp: createDeco_def)
  from r assms(2) have "alt m = Highlight"
    by (cases "alt m") (simp_all add: decoration_def highlightDeco_def tagDeco_def)
  with m r show ?thesis by auto
qed

lemma highlight_createDeco:
  assumes "m \<in> set (matches_from s 0)" "alt m = Highlight"
  shows "\<lparr>rfrom = index m, rto = index m + len m, rvalue = highlightDeco\<rparr> \<in> set (createDeco s)"
proof -
  from assms(1)
  have "\<lparr>rfrom = index m, rto = index m + len m, rvalue = decoration m\<rparr> \<in> set (createDeco s)"
    by (simp add: createDeco_def)
  with assms(2) show ?thesis by (simp add: decoration_def)
qed

text \<open>
  A text that is delimited at position \<open>j\<close> is found there, unless the search has passed
  \<open>j\<close> inside an earlier highlight match.
\<close>

lemma delimited_found:
  assumes d: "d = str ''::'' \<or> d = str ''==''" and inner: "inner \<noteq> []"
    "\<forall>c \<in> set inner. \<not> is_line_terminator c"
    and s: "drop j s = d @ inner @ d @ rest"
  shows "\<exists>m \<in> set (matches_from s 0). alt m = Highlight \<and>
           (index m = j \<and> len m \<le> length (d @ inner @ d) \<or>
            index m < j \<and> j < index m + len m)"
proof -
  from highlightRe_complete [OF d inner, of rest] obtain n where
    n: "highlightRe (drop j s) = Some n" "n \<le> length (d @ inner @ d)"
    unfolding s by blast
  let ?m = "\<lparr>index = j, len = n, alt = Highlight\<rparr>"
  from n(1) have at: "match_at s j = Some ?m" by (simp add: match_at_def)
  from d s have j: "j < length s" "s ! j \<noteq> hash" "\<not> tag_char (s ! j)"
  proof -
    from d s have "drop j s \<noteq> []" by (auto simp: str_def)
    then show l: "j < length s" by simp
    from d s have "hd (drop j s) = 58 \<or> hd (drop j s) = 61" by (auto simp: str_def)
    with l have "s ! j = 58 \<or> s ! j = 61" by (simp add: hd_drop_conv_nth)
    then show "s ! j \<noteq> hash" "\<not> tag_char (s ! j)"
      by (auto simp: hash_def tag_char_def tag_excluded_def)
  qed
  from matches_from_cover [OF _ at, of 0]
  consider "?m \<in> set (matches_from s 0)"
    | m' where "m' \<in> set (matches_from s 0)" "index m' < j" "j < index m' + len m'"
    by auto
  then show ?thesis
  proof cases
    case 1
    with n(2) show ?thesis by (intro bexI [of _ ?m]) simp_all
  next
    case 2
    have "alt m' = Highlight"
    proof (cases "alt m'")
      case Tag
      from matches_from_match_at [OF 2(1)] Tag 2(2,3) j(1)
      have "s ! j = hash \<or> tag_char (s ! j)"
        by (intro tag_match_chars [of s "index m'" m']) simp_all
      with j show ?thesis by simp
    qed simp
    with 2 show ?thesis by (intro bexI [of _ m']) simp_all
  qed
qed

text \<open>
  C4. Every highlight decoration of the Span Matcher covers a span of the text that
  consists of an opening delimiter \<open>::\<close> or \<open>==\<close>, a non-empty interior without line
  terminators and the same delimiter again: the range includes both delimiters, and it
  ends with the first closing delimiter that follows at least one interior character.
  Conversely, wherever the text has such a delimited span, at position \<open>j\<close>, a highlight
  decoration starts at \<open>j\<close> and ends no later than that span, or \<open>j\<close> lies inside a
  highlight decoration that starts earlier. Each of \<open>a ::b:: c\<close> and \<open>a ==b== c\<close> yields
  exactly one decoration, a highlight over the positions 2 to 7, that is over \<open>::b::\<close> and
  \<open>==b==\<close>; an interior of several characters is covered as a whole, the interior of
  \<open>==\<close> may contain \<open>::\<close>, a closing delimiter does not open the next span, and a span
  that is not closed on its line, or closed by the other delimiter, is not decorated.
\<close>

theorem highlight_matches:
  "(\<forall>r \<in> set (createDeco s). rvalue r = highlightDeco \<longrightarrow>
      rto r \<le> length s \<and>
      (\<exists>d inner. (d = str ''::'' \<or> d = str ''=='') \<and> inner \<noteq> [] \<and>
         (\<forall>c \<in> set inner. \<not> is_line_terminator c) \<and>
         take (rto r - rfrom r) (drop (rfrom r) s) = d @ inner @ d \<and>
         rto r - rfrom r = length (d @ inner @ d) \<and>
         (\<forall>k. 1 \<le> k \<and> k < length inner \<longrightarrow> \<not> prefix d (drop (rfrom r + 2 + k) s))))
   \<and> ((d = str ''::'' \<or> d = str ''=='') \<and> inner \<noteq> [] \<and>
       (\<forall>c \<in> set inner. \<not> is_line_terminator c) \<and> drop j s = d @ inner @ d @ rest \<longrightarrow>
         (\<exists>r \<in> set (createDeco s). rvalue r = highlightDeco \<and>
            (rfrom r = j \<and> rto r \<le> j + length (d @ inner @ d) \<or> rfrom r < j \<and> j < rto r)))
   \<and> createDeco (str ''a ::b:: c'') = [\<lparr>rfrom = 2, rto = 7, rvalue = highlightDeco\<rparr>]
   \<and> take (7 - 2) (drop 2 (str ''a ::b:: c'')) = str ''::b::''
   \<and> createDeco (str ''a ==b== c'') = [\<lparr>rfrom = 2, rto = 7, rvalue = highlightDeco\<rparr>]
   \<and> take (7 - 2) (drop 2 (str ''a ==b== c'')) = str ''==b==''
   \<and> createDeco (str ''x ::some text:: y'') = [\<lparr>rfrom = 2, rto = 15, rvalue = highlightDeco\<rparr>]
   \<and> createDeco (str ''==a::b=='') = [\<lparr>rfrom = 0, rto = 8, rvalue = highlightDeco\<rparr>]
   \<and> createDeco (str ''::a::b::'') = [\<lparr>rfrom = 0, rto = 5, rvalue = highlightDeco\<rparr>]
   \<and> createDeco (str ''::a:: ==b=='') =
       [\<lparr>rfrom = 0, rto = 5, rvalue = highlightDeco\<rparr>,
        \<lparr>rfrom = 6, rto = 11, rvalue = highlightDeco\<rparr>]
   \<and> createDeco (str ''::a=='') = []
   \<and> createDeco (str ''::::'') = []
   \<and> createDeco (str ''::a'' @ 10 # str ''b::'') = []"
proof (intro conjI ballI impI)
  fix r
  assume r: "r \<in> set (createDeco s)" "rvalue r = highlightDeco"
  from createDeco_highlight [OF r] obtain m where m: "m \<in> set (matches_from s 0)"
    and h: "alt m = Highlight" and rf: "rfrom r = index m" and rt: "rto r = index m + len m"
    by blast
  from matches_from_match_at [OF m] h
  have "highlightRe (drop (index m) s) = Some (len m)"
    using match_at_Highlight by blast
  from highlightRe_first [OF this] obtain d inner rest where
    d: "d = str ''::'' \<or> d = str ''==''" and
    dr: "drop (index m) s = d @ inner @ d @ rest" and
    ln: "len m = length (d @ inner @ d)" and
    inner: "inner \<noteq> []" "\<forall>c \<in> set inner. \<not> is_line_terminator c" and
    first: "\<forall>k. 1 \<le> k \<and> k < length inner \<longrightarrow> \<not> prefix d (drop (2 + k) (drop (index m) s))"
    by blast
  from dr inner have "index m < length s" by (cases "index m < length s") auto
  then have "length s = index m + length (drop (index m) s)" by simp
  then have "index m + len m \<le> length s" unfolding dr ln by simp
  then show "rto r \<le> length s" using rt by simp
  from dr ln have tk: "take (len m) (drop (index m) s) = d @ inner @ d" by simp
  from first have "\<forall>k. 1 \<le> k \<and> k < length inner \<longrightarrow> \<not> prefix d (drop (index m + 2 + k) s)"
    by (simp add: add.commute add.left_commute)
  with d tk ln inner rf rt
  show "\<exists>d inner. (d = str ''::'' \<or> d = str ''=='') \<and> inner \<noteq> [] \<and>
         (\<forall>c \<in> set inner. \<not> is_line_terminator c) \<and>
         take (rto r - rfrom r) (drop (rfrom r) s) = d @ inner @ d \<and>
         rto r - rfrom r = length (d @ inner @ d) \<and>
         (\<forall>k. 1 \<le> k \<and> k < length inner \<longrightarrow> \<not> prefix d (drop (rfrom r + 2 + k) s))"
    by (intro exI [of _ d] exI [of _ inner]) simp
next
  assume a: "(d = str ''::'' \<or> d = str ''=='') \<and> inner \<noteq> [] \<and>
       (\<forall>c \<in> set inner. \<not> is_line_terminator c) \<and> drop j s = d @ inner @ d @ rest"
  then have "\<exists>m \<in> set (matches_from s 0). alt m = Highlight \<and>
           (index m = j \<and> len m \<le> length (d @ inner @ d) \<or>
            index m < j \<and> j < index m + len m)"
    by (intro delimited_found) simp_all
  then obtain m where m: "m \<in> set (matches_from s 0)" "alt m = Highlight"
    "index m = j \<and> len m \<le> length (d @ inner @ d) \<or> index m < j \<and> j < index m + len m"
    by blast
  from highlight_createDeco [OF m(1,2)] m(3)
  show "\<exists>r \<in> set (createDeco s). rvalue r = highlightDeco \<and>
            (rfrom r = j \<and> rto r \<le> j + length (d @ inner @ d) \<or> rfrom r < j \<and> j < rto r)"
    by (intro bexI [of _ "\<lparr>rfrom = index m, rto = index m + len m, rvalue = highlightDeco\<rparr>"])
       auto
qed (simp_all add: span_eval)

theorem highlight_matches_witness:
  "\<lparr>rfrom = 2, rto = 8, rvalue = highlightDeco\<rparr> \<in> set (createDeco (str ''a ::bc:: d''))
   \<and> (8::nat) \<le> length (str ''a ::bc:: d'')
   \<and> take (8 - 2) (drop 2 (str ''a ::bc:: d'')) = str ''::'' @ str ''bc'' @ str ''::''
   \<and> \<not> prefix (str ''::'') (drop (2 + 2 + 1) (str ''a ::bc:: d''))
   \<and> drop 2 (str ''a ::bc:: d'') = str ''::'' @ str ''bc'' @ str ''::'' @ str '' d''"
  using highlight_matches [of "str ''a ::bc:: d''" "str ''::''" "str ''bc''" 2 "str '' d''"]
  by (simp add: span_eval)

section \<open>The editor state read by the Block Classifier\<close>

text \<open>
  The two line highlighters read the document and its syntax tree from the editor
  state. Both belong to the host editor, so they are inputs here: the document is the
  list of its lines (at least one; lines are joined by one line break each), and the
  tree is what \<open>syntaxTree(state)\<close> returns. Positions are offsets into the document
  and line numbers start at 1, as in the host.
\<close>

datatype error = RangeError | RangesNotSorted

type_synonym Text = "jsstring list"

datatype SyntaxNode =
  SyntaxNode (name: string) (nfrom: nat) (nto: nat) (children: "SyntaxNode list")

record EditorState =
  doc :: Text
  syntaxTree :: SyntaxNode

record Line =
  number :: nat
  lfrom :: nat
  lto :: nat

definition and_then :: "error + 'a \<Rightarrow> ('a \<Rightarrow> error + 'b) \<Rightarrow> error + 'b" where
  "and_then r f = (case r of Inl e \<Rightarrow> Inl e | Inr x \<Rightarrow> f x)"

text \<open>\<open>state.doc.length\<close>: all characters and the line breaks between the lines.\<close>

definition doc_length :: "Text \<Rightarrow> nat" where
  "doc_length d = sum_list (map length d) + (length d - 1)"

text \<open>The offset at which line \<open>n\<close> starts.\<close>

definition line_start :: "Text \<Rightarrow> nat \<Rightarrow> nat" where
  "line_start d n = sum_list (map (\<lambda>l. length l + 1) (take (n - 1) d))"

text \<open>\<open>state.doc.line(n)\<close>; the host raises a \<open>RangeError\<close> for a line number out of range.\<close>

definition line :: "Text \<Rightarrow> nat \<Rightarrow> error + Line" where
  "line d n =
     (if n < 1 \<or> length d < n then Inl RangeError
      else Inr \<lparr>number = n, lfrom = line_start d n,
                lto = line_start d n + length (d ! (n - 1))\<rparr>)"

text \<open>
  \<open>state.doc.lineAt(pos)\<close>: the line around a position (the position of a line break
  belongs to the line it ends); a \<open>RangeError\<close> for a position outside the document.
\<close>

definition lineAt :: "Text \<Rightarrow> nat \<Rightarrow> error + Line" where
  "lineAt d pos =
     (if doc_length d < pos then Inl RangeError
      else (case find (\<lambda>n. pos \<le> line_start d n + length (d ! (n - 1))) [1..<Suc (length d)] of
              None \<Rightarrow> Inl RangeError
            | Some n \<Rightarrow> line d n))"

text \<open>
  \<open>tree.iterate({from, to, enter})\<close>: a depth-first walk in document order that calls
  \<open>enter\<close> on each node touching the region \<open>[from, to]\<close>. The children of a node are
  visited unless the node lies outside the region or \<open>enter\<close> returned \<open>false\<close>. The
  callbacks of the source push to an array; here \<open>enter\<close> takes the array and returns it
  together with the flag "descend", or the error it raised.
\<close>

fun iterate ::
    "(SyntaxNode \<Rightarrow> 's \<Rightarrow> error + ('s \<times> bool)) \<Rightarrow> nat \<Rightarrow> nat \<Rightarrow> SyntaxNode \<Rightarrow> 's \<Rightarrow> error + 's"
  and iterate_children ::
    "(SyntaxNode \<Rightarrow> 's \<Rightarrow> error + ('s \<times> bool)) \<Rightarrow> nat \<Rightarrow> nat \<Rightarrow> SyntaxNode list \<Rightarrow> 's \<Rightarrow> error + 's"
  where
  "iterate enter from_pos to_pos (SyntaxNode nm f t cs) s =
     (if f \<le> to_pos \<and> from_pos \<le> t then
        (case enter (SyntaxNode nm f t cs) s of
           Inl e \<Rightarrow> Inl e
         | Inr (s', descend) \<Rightarrow>
             if descend then iterate_children enter from_pos to_pos cs s' else Inr s')
      else Inr s)"
| "iterate_children enter from_pos to_pos [] s = Inr s"
| "iterate_children enter from_pos to_pos (c # cs) s =
     (case iterate enter from_pos to_pos c s of
        Inl e \<Rightarrow> Inl e
      | Inr s' \<Rightarrow> iterate_children enter from_pos to_pos cs s')"

text \<open>
  \<open>Decoration.set(ranges, sort)\<close>: with \<open>sort\<close> the ranges are sorted by position
  (stably; all decorations of the two highlighters are line decorations, which have the
  same side), without it they must already be sorted and the host raises an error
  otherwise.
\<close>

definition Decoration_set :: "range list \<Rightarrow> bool \<Rightarrow> error + range list" where
  "Decoration_set ranges sort_them =
     (if sort_them then Inr (sort_key rfrom ranges)
      else if sorted (map rfrom ranges) then Inr ranges
      else Inl RangesNotSorted)"

definition range_at :: "Decoration \<Rightarrow> nat \<Rightarrow> range" where
  "range_at d pos = \<lparr>rfrom = pos, rto = pos, rvalue = d\<rparr>"

section \<open>The Block Classifier: \<open>getCodeBlockLineHighlighter\<close>\<close>

definition codeLineDecorator :: Decoration where
  "codeLineDecorator = Line ''code code-block-line''"

definition codeBlockStart :: Decoration where
  "codeBlockStart = Line ''code-block-first-line''"

definition codeBlockEnd :: Decoration where
  "codeBlockEnd = Line ''code-block-last-line''"

text \<open>The loop \<open>for (lineNo = start; lineNo <= end; lineNo++)\<close> over its line numbers.\<close>

fun code_lines :: "Text \<Rightarrow> nat list \<Rightarrow> range list \<Rightarrow> error + range list" where
  "code_lines d [] widgets = Inr widgets"
| "code_lines d (lineNo # rest) widgets =
     and_then (line d lineNo) (\<lambda>l.
       code_lines d rest (widgets @ [range_at codeLineDecorator (lfrom l)]))"

text \<open>The callback \<open>enter\<close> of the code block highlighter; it never returns \<open>false\<close>.\<close>

definition enter_code :: "Text \<Rightarrow> SyntaxNode \<Rightarrow> range list \<Rightarrow> error + (range list \<times> bool)" where
  "enter_code d node widgets =
     (if name node \<noteq> ''CodeText'' then Inr (widgets, True)
      else
        and_then (lineAt d (nfrom node)) (\<lambda>sl.
        and_then (lineAt d (nto node)) (\<lambda>el.
          let start = number sl; end = number el in
          and_then (line d start) (\<lambda>l1.
          and_then (code_lines d [start..<Suc end]
                      (widgets @ [range_at codeBlockStart (lfrom l1)])) (\<lambda>widgets.
          and_then (line d end) (\<lambda>l2.
            Inr (widgets @ [range_at codeBlockEnd (lfrom l2)], True)))))))"

definition render_code :: "EditorState \<Rightarrow> error + range list" where
  "render_code state =
     and_then (iterate (enter_code (doc state)) 0 (doc_length (doc state))
                 (syntaxTree state) [])
       (\<lambda>widgets. Decoration_set widgets True)"

section \<open>The Block Classifier: \<open>getHeadingLineHighlighter\<close>\<close>

definition h1 :: Decoration where "h1 = Line ''size-header-1''"
definition h2 :: Decoration where "h2 = Line ''size-header-2''"
definition h3 :: Decoration where "h3 = Line ''size-header-3''"
definition h4 :: Decoration where "h4 = Line ''size-header-4''"
definition h5 :: Decoration where "h5 = Line ''size-header-5''"
definition h6 :: Decoration where "h6 = Line ''size-header-6''"

text \<open>The \<open>switch\<close> over the node name; a name without a case pushes nothing.\<close>

definition heading_switch :: "SyntaxNode \<Rightarrow> range list \<Rightarrow> range list" where
  "heading_switch node widgets =
     (if name node = ''ATXHeading1'' \<or> name node = ''SetextHeading1''
        then widgets @ [range_at h1 (nfrom node)]
      else if name node = ''ATXHeading2'' \<or> name node = ''SetextHeading2''
        then widgets @ [range_at h2 (nfrom node)]
      else if name node = ''ATXHeading3'' then widgets @ [range_at h3 (nfrom node)]
      else if name node = ''ATXHeading4'' then widgets @ [range_at h4 (nfrom node)]
      else if name node = ''ATXHeading5'' then widgets @ [range_at h5 (nfrom node)]
      else if name node = ''ATXHeading6'' then widgets @ [range_at h6 (nfrom node)]
      else widgets)"

text \<open>
  The callback \<open>enter\<close> of the heading highlighter: the walk descends into the document
  node and into nodes whose name starts with \<open>ATX\<close> or \<open>Setext\<close>, and into no other.
\<close>

definition enter_heading :: "SyntaxNode \<Rightarrow> range list \<Rightarrow> error + (range list \<times> bool)" where
  "enter_heading node widgets =
     (if name node = ''Document'' then Inr (widgets, True)
      else if \<not> prefix ''ATX'' (name node) \<and> \<not> prefix ''Setext'' (name node)
        then Inr (widgets, False)
      else Inr (heading_switch node widgets, True))"

definition render_heading :: "EditorState \<Rightarrow> error + range list" where
  "render_heading state =
     and_then (iterate enter_heading 0 (doc_length (doc state)) (syntaxTree state) [])
       (\<lambda>widgets. Decoration_set widgets False)"


section \<open>Notions used to state the properties of the Block Classifier\<close>

text \<open>
  The nodes a walk calls \<open>enter\<close> on, in order, when the walk descends exactly into the
  nodes satisfying \<open>p\<close>; \<open>nodes\<close> lists all nodes of a tree.
\<close>

fun visited :: "(SyntaxNode \<Rightarrow> bool) \<Rightarrow> SyntaxNode \<Rightarrow> SyntaxNode list" where
  "visited p (SyntaxNode nm f t cs) =
     SyntaxNode nm f t cs #
       (if p (SyntaxNode nm f t cs) then concat (map (visited p) cs) else [])"

definition nodes :: "SyntaxNode \<Rightarrow> SyntaxNode list" where
  "nodes t = visited (\<lambda>_. True) t"

text \<open>
  What the host guarantees about a state: the document has a line, every node of the
  tree lies inside the document, and the nodes start in document order.
\<close>

definition consistent :: "EditorState \<Rightarrow> bool" where
  "consistent state \<longleftrightarrow>
     doc state \<noteq> [] \<and>
     list_all (\<lambda>n. nfrom n \<le> nto n \<and> nto n \<le> doc_length (doc state))
       (nodes (syntaxTree state)) \<and>
     sorted (map nfrom (nodes (syntaxTree state)))"

text \<open>The number of the line around a position (0 outside the document).\<close>

definition line_no :: "Text \<Rightarrow> nat \<Rightarrow> nat" where
  "line_no d pos = (case lineAt d pos of Inl _ \<Rightarrow> 0 | Inr l \<Rightarrow> number l)"

text \<open>The tags of a line: the decorations anchored at the start of the line.\<close>

definition line_tags :: "Text \<Rightarrow> range list \<Rightarrow> nat \<Rightarrow> Decoration list" where
  "line_tags d ds l = map rvalue (filter (\<lambda>r. rfrom r = line_start d l) ds)"


section \<open>Properties of the code block highlighter\<close>


lemma line_start_Suc:
  "1 \<le> n \<Longrightarrow> n \<le> length d \<Longrightarrow> line_start d (Suc n) = line_start d n + length (d ! (n - 1)) + 1"
proof -
  assume n: "1 \<le> n" "n \<le> length d"
  then have "take n d = take (n - 1) d @ [d ! (n - 1)]"
    using take_Suc_conv_app_nth [of "n - 1" d] by simp
  then show ?thesis by (simp add: line_start_def)
qed

lemma line_start_less:
  "1 \<le> a \<Longrightarrow> a < b \<Longrightarrow> b \<le> length d \<Longrightarrow> line_start d a < line_start d b"
proof (induction b)
  case 0
  then show ?case by simp
next
  case (Suc b)
  show ?case
  proof (cases "a = b")
    case True
    with Suc.prems show ?thesis using line_start_Suc [of b d] by simp
  next
    case False
    with Suc.prems have "line_start d a < line_start d b" using Suc.IH by simp
    moreover from Suc.prems have "line_start d (Suc b) = line_start d b + length (d ! (b - 1)) + 1"
      using line_start_Suc [of b d] by simp
    ultimately show ?thesis by simp
  qed
qed

lemma line_start_inj:
  "1 \<le> a \<Longrightarrow> a \<le> length d \<Longrightarrow> 1 \<le> b \<Longrightarrow> b \<le> length d \<Longrightarrow>
     line_start d a = line_start d b \<longleftrightarrow> a = b"
  using line_start_less [of a b d] line_start_less [of b a d]
  by (cases a b rule: linorder_cases) auto

lemma doc_length_last:
  assumes "d \<noteq> []"
  shows "doc_length d = line_start d (length d) + length (d ! (length d - 1))"
proof -
  have "sum_list (map (\<lambda>l. length l + 1) xs) = sum_list (map length xs) + length xs" for xs :: Text
    by (induction xs) auto
  then have "line_start d (length d) = sum_list (map length (butlast d)) + (length d - 1)"
    by (simp add: line_start_def butlast_conv_take)
  moreover have "sum_list (map length (butlast d @ [last d])) =
      sum_list (map length (butlast d)) + length (last d)"
    by simp
  with assms have "sum_list (map length d) = sum_list (map length (butlast d)) + length (last d)"
    by simp
  moreover from assms have "last d = d ! (length d - 1)" by (simp add: last_conv_nth)
  ultimately show ?thesis by (simp add: doc_length_def)
qed

lemma line_Inr:
  "1 \<le> n \<Longrightarrow> n \<le> length d \<Longrightarrow>
     \<exists>l. line d n = Inr l \<and> number l = n \<and> lfrom l = line_start d n"
  by (simp add: line_def)

lemma lineAt_Inr:
  assumes "d \<noteq> []" "pos \<le> doc_length d"
  shows "\<exists>l. lineAt d pos = Inr l \<and> line d (number l) = Inr l \<and>
           1 \<le> number l \<and> number l \<le> length d \<and> number l = line_no d pos"
proof -
  let ?P = "\<lambda>n. pos \<le> line_start d n + length (d ! (n - 1))"
  from assms have "?P (length d)" by (simp add: doc_length_last)
  moreover from assms have "length d \<in> set [1..<Suc (length d)]" by (cases d) auto
  ultimately have "find ?P [1..<Suc (length d)] \<noteq> None"
    by (auto simp: find_None_iff)
  then obtain n where f: "find ?P [1..<Suc (length d)] = Some n" by auto
  then obtain i where "i < length [1..<Suc (length d)]" "n = [1..<Suc (length d)] ! i"
    unfolding find_Some_iff by blast
  then have "n \<in> set [1..<Suc (length d)]"
    using nth_mem by blast
  then have n: "1 \<le> n" "n \<le> length d" by auto
  from f assms have at: "lineAt d pos = line d n" by (simp add: lineAt_def)
  from line_Inr [OF n] obtain l where l: "line d n = Inr l" "number l = n" by blast
  with at n show ?thesis by (simp add: line_no_def)
qed

lemma code_lines_Inr:
  "\<forall>n \<in> set ns. 1 \<le> n \<and> n \<le> length d \<Longrightarrow>
     code_lines d ns ws =
       Inr (ws @ map (\<lambda>n. range_at codeLineDecorator (line_start d n)) ns)"
proof (induction ns arbitrary: ws)
  case Nil
  then show ?case by simp
next
  case (Cons n ns)
  then have "line d n = Inr \<lparr>number = n, lfrom = line_start d n,
      lto = line_start d n + length (d ! (n - 1))\<rparr>"
    by (simp add: line_def)
  with Cons show ?case by (simp add: and_then_def)
qed

text \<open>The ranges the callback pushes for one node.\<close>

definition code_widgets :: "Text \<Rightarrow> SyntaxNode \<Rightarrow> range list" where
  "code_widgets d node =
     (if name node = ''CodeText'' then
        range_at codeBlockStart (line_start d (line_no d (nfrom node))) #
        map (\<lambda>n. range_at codeLineDecorator (line_start d n))
          [line_no d (nfrom node)..<Suc (line_no d (nto node))] @
        [range_at codeBlockEnd (line_start d (line_no d (nto node)))]
      else [])"

lemma enter_code_Inr:
  assumes "d \<noteq> []" "nfrom node \<le> doc_length d" "nto node \<le> doc_length d"
  shows "enter_code d node ws = Inr (ws @ code_widgets d node, True)"
proof (cases "name node = ''CodeText''")
  case False
  then show ?thesis by (simp add: enter_code_def code_widgets_def)
next
  case True
  from lineAt_Inr [OF assms(1,2)] obtain sl where
    sl: "lineAt d (nfrom node) = Inr sl" "line d (number sl) = Inr sl"
      "1 \<le> number sl" "number sl \<le> length d" "number sl = line_no d (nfrom node)"
    by blast
  from lineAt_Inr [OF assms(1,3)] obtain el where
    el: "lineAt d (nto node) = Inr el" "line d (number el) = Inr el"
      "1 \<le> number el" "number el \<le> length d" "number el = line_no d (nto node)"
    by blast
  from line_Inr [OF sl(3,4)] sl(2) have sf: "lfrom sl = line_start d (number sl)" by auto
  from line_Inr [OF el(3,4)] el(2) have ef: "lfrom el = line_start d (number el)" by auto
  have "\<forall>n \<in> set [number sl..<Suc (number el)]. 1 \<le> n \<and> n \<le> length d"
    using sl(3) el(4) by auto
  from code_lines_Inr [OF this]
  have cl: "code_lines d [number sl..<Suc (number el)] ws' =
      Inr (ws' @ map (\<lambda>n. range_at codeLineDecorator (line_start d n))
        [number sl..<Suc (number el)])" for ws'
    by blast
  note cl' = cl [unfolded sl(5) el(5)]
  show ?thesis
    unfolding enter_code_def code_widgets_def
    using True sl(1) el(1) sl(2) [unfolded sl(5)] el(2) [unfolded el(5)]
      sf [unfolded sl(5)] ef [unfolded el(5)] sl(5) el(5)
    by (simp add: and_then_def Let_def cl' del: upt_Suc)
qed

lemma iterate_children_concat:
  assumes "\<And>c ws. c \<in> set cs \<Longrightarrow> iterate enter a b c ws = Inr (ws @ g c)"
  shows "iterate_children enter a b cs ws = Inr (ws @ concat (map g cs))"
  using assms by (induction cs arbitrary: ws) auto

lemma concat_map_concat:
  "concat (map g (concat (map h cs))) = concat (map (\<lambda>c. concat (map g (h c))) cs)"
  by (induction cs) auto

lemma nodes_child:
  "c \<in> set cs \<Longrightarrow> n \<in> set (nodes c) \<Longrightarrow> n \<in> set (nodes (SyntaxNode nm f t cs))"
  by (auto simp: nodes_def)

lemma nodes_self: "t \<in> set (nodes t)"
  by (cases t) (simp add: nodes_def)

lemma iterate_visited:
  assumes "\<And>n ws. n \<in> set (nodes t) \<Longrightarrow> enter n ws = Inr (ws @ g n, p n)"
    and "\<And>n. n \<in> set (nodes t) \<Longrightarrow> nfrom n \<le> b \<and> a \<le> nto n"
  shows "iterate enter a b t ws = Inr (ws @ concat (map g (visited p t)))"
  using assms
proof (induction t arbitrary: ws)
  case (SyntaxNode nm f t cs)
  let ?n = "SyntaxNode nm f t cs"
  have self: "?n \<in> set (nodes ?n)" by (rule nodes_self)
  from SyntaxNode.prems(2) [OF self] have rng: "f \<le> b \<and> a \<le> t" by simp
  have kids: "iterate enter a b c ws' = Inr (ws' @ concat (map g (visited p c)))"
    if "c \<in> set cs" for c ws'
  proof (rule SyntaxNode.IH [OF that])
    fix n ws''
    assume "n \<in> set (nodes c)"
    with that have "n \<in> set (nodes ?n)" by (rule nodes_child)
    then show "enter n ws'' = Inr (ws'' @ g n, p n)" by (rule SyntaxNode.prems(1))
  next
    fix n
    assume "n \<in> set (nodes c)"
    with that have "n \<in> set (nodes ?n)" by (rule nodes_child)
    then show "nfrom n \<le> b \<and> a \<le> nto n" by (rule SyntaxNode.prems(2))
  qed
  have "iterate_children enter a b cs ws' =
      Inr (ws' @ concat (map (\<lambda>c. concat (map g (visited p c))) cs))" for ws'
    by (rule iterate_children_concat) (rule kids)
  with rng SyntaxNode.prems(1) [OF self] show ?case
    by (simp add: concat_map_concat)
qed

lemma code_widgets_tag:
  assumes "d \<noteq> []" "nfrom n \<le> doc_length d" "nto n \<le> doc_length d"
    and l: "1 \<le> l" "l \<le> length d"
  shows "(\<exists>r \<in> set (code_widgets d n). rfrom r = line_start d l \<and> rvalue r = deco) \<longleftrightarrow>
    name n = ''CodeText'' \<and>
    (deco = codeBlockStart \<and> line_no d (nfrom n) = l \<or>
     deco = codeLineDecorator \<and> line_no d (nfrom n) \<le> l \<and> l \<le> line_no d (nto n) \<or>
     deco = codeBlockEnd \<and> line_no d (nto n) = l)"
proof -
  from lineAt_Inr [OF assms(1,2)] have s: "1 \<le> line_no d (nfrom n)" "line_no d (nfrom n) \<le> length d"
    by auto
  from lineAt_Inr [OF assms(1,3)] have e: "1 \<le> line_no d (nto n)" "line_no d (nto n) \<le> length d"
    by auto
  have inj: "line_start d k = line_start d l \<longleftrightarrow> k = l" if "1 \<le> k" "k \<le> length d" for k
    using that l by (rule line_start_inj)
  have mid: "line_start d k = line_start d l \<longleftrightarrow> k = l"
    if "line_no d (nfrom n) \<le> k" "k \<le> line_no d (nto n)" for k
    using that s e by (intro inj) auto
  show ?thesis
  proof (cases "name n = ''CodeText''")
    case False
    then show ?thesis by (simp add: code_widgets_def)
  next
    case True
    then have "set (code_widgets d n) =
        {range_at codeBlockStart (line_start d (line_no d (nfrom n)))} \<union>
        (\<lambda>k. range_at codeLineDecorator (line_start d k)) `
          {k. line_no d (nfrom n) \<le> k \<and> k \<le> line_no d (nto n)} \<union>
        {range_at codeBlockEnd (line_start d (line_no d (nto n)))}"
      by (auto simp: code_widgets_def simp del: upt_Suc)
    then show ?thesis
      using True inj [OF s] inj [OF e] mid
      by (auto simp: range_at_def)
  qed
qed

lemma consistent_nodes:
  assumes "consistent st" "n \<in> set (nodes (syntaxTree st))"
  shows "nfrom n \<le> doc_length (doc st)" "nto n \<le> doc_length (doc st)"
  using assms by (auto simp: consistent_def list_all_iff)

lemma render_code_Inr:
  assumes "consistent st"
  shows "render_code st =
    Inr (sort_key rfrom (concat (map (code_widgets (doc st)) (nodes (syntaxTree st)))))"
proof -
  from assms have d: "doc st \<noteq> []" by (simp add: consistent_def)
  have "iterate (enter_code (doc st)) 0 (doc_length (doc st)) (syntaxTree st) [] =
      Inr ([] @ concat (map (code_widgets (doc st)) (visited (\<lambda>_. True) (syntaxTree st))))"
  proof (rule iterate_visited)
    fix n ws
    assume "n \<in> set (nodes (syntaxTree st))"
    with assms d show "enter_code (doc st) n ws = Inr (ws @ code_widgets (doc st) n, True)"
      by (intro enter_code_Inr consistent_nodes)
  next
    fix n
    assume "n \<in> set (nodes (syntaxTree st))"
    with assms show "nfrom n \<le> doc_length (doc st) \<and> 0 \<le> nto n"
      by (simp add: consistent_nodes)
  qed
  then show ?thesis
    by (simp add: render_code_def and_then_def Decoration_set_def nodes_def)
qed

text \<open>The tags of all lines of the document, from the first line on.\<close>

definition code_tags :: "EditorState \<Rightarrow> error + Decoration list list" where
  "code_tags st =
     and_then (render_code st) (\<lambda>ds.
       Inr (map (line_tags (doc st) ds) [1..<Suc (length (doc st))]))"

text \<open>
  Documents of seven lines with one fenced code block. In the first the interior of the
  block, the \<open>CodeText\<close> node, covers the lines 3 to 5 (the fences are the lines 2 and 6);
  in the second the interior is line 5 alone (the fences are the lines 4 and 6); in the
  third the block itself, the \<open>FencedCode\<close> node with its fences, covers the lines 3 to 5,
  and its interior is line 4.
\<close>

definition fenced_3_5 :: EditorState where
  "fenced_3_5 =
     \<lparr>doc = map str [''intro'', ''```'', ''a = 1'', ''b = 2'', ''c = 3'', ''```'', ''outro''],
      syntaxTree = SyntaxNode ''Document'' 0 37
        [SyntaxNode ''Paragraph'' 0 5 [],
         SyntaxNode ''FencedCode'' 6 31
           [SyntaxNode ''CodeMark'' 6 9 [],
            SyntaxNode ''CodeText'' 10 27 [],
            SyntaxNode ''CodeMark'' 28 31 []],
         SyntaxNode ''Paragraph'' 32 37 []]\<rparr>"

definition fenced_5_5 :: EditorState where
  "fenced_5_5 =
     \<lparr>doc = map str [''intro'', [], ''more'', ''```'', ''a = 1'', ''```'', ''outro''],
      syntaxTree = SyntaxNode ''Document'' 0 31
        [SyntaxNode ''Paragraph'' 0 5 [],
         SyntaxNode ''Paragraph'' 7 11 [],
         SyntaxNode ''FencedCode'' 12 25
           [SyntaxNode ''CodeMark'' 12 15 [],
            SyntaxNode ''CodeText'' 16 21 [],
            SyntaxNode ''CodeMark'' 22 25 []],
         SyntaxNode ''Paragraph'' 26 31 []]\<rparr>"

definition fences_3_5 :: EditorState where
  "fences_3_5 =
     \<lparr>doc = map str [''intro'', [], ''```'', ''a = 1'', ''```'', [], ''outro''],
      syntaxTree = SyntaxNode ''Document'' 0 27
        [SyntaxNode ''Paragraph'' 0 5 [],
         SyntaxNode ''FencedCode'' 7 20
           [SyntaxNode ''CodeMark'' 7 10 [],
            SyntaxNode ''CodeText'' 11 16 [],
            SyntaxNode ''CodeMark'' 17 20 []],
         SyntaxNode ''Paragraph'' 22 27 []]\<rparr>"

lemmas block_eval =
  code_tags_def render_code_def and_then_def Decoration_set_def enter_code_def
  lineAt_def line_def line_start_def doc_length_def line_tags_def range_at_def str_def
  Let_def

text \<open>
  C1 (as amended). In a consistent state the code block highlighter returns a decoration
  set in which, for every line \<open>l\<close> of the document: \<open>l\<close> carries the block-first tag
  exactly when it is the first line of some \<open>CodeText\<close> node (the textual interior of a
  code block, without the lines of its fences), the block-last tag exactly when it is the
  last line of such a node, the code-line tag exactly when it lies in the inclusive range
  from the first to the last line of such a node, and no other tag. The lines of the
  fences are not tagged. For the document whose code block has the lines 3 to 5 as its
  interior (the fences are the lines 2 and 6), line 3 is tagged block-first and
  code-line, line 4 code-line, line 5 code-line and block-last, and the lines 1, 2, 6 and
  7 carry no tag. An interior that is line 5 alone gives line 5 all three tags. A fenced
  block that itself covers the lines 3 to 5 gives line 4 all three tags and no tag to
  any other line.
\<close>

theorem code_block_lines:
  "(consistent st \<longrightarrow>
      (\<exists>ds. render_code st = Inr ds \<and>
         (\<forall>l. 1 \<le> l \<and> l \<le> length (doc st) \<longrightarrow>
            (codeBlockStart \<in> set (line_tags (doc st) ds l) \<longleftrightarrow>
               (\<exists>n \<in> set (nodes (syntaxTree st)). name n = ''CodeText'' \<and>
                  line_no (doc st) (nfrom n) = l)) \<and>
            (codeBlockEnd \<in> set (line_tags (doc st) ds l) \<longleftrightarrow>
               (\<exists>n \<in> set (nodes (syntaxTree st)). name n = ''CodeText'' \<and>
                  line_no (doc st) (nto n) = l)) \<and>
            (codeLineDecorator \<in> set (line_tags (doc st) ds l) \<longleftrightarrow>
               (\<exists>n \<in> set (nodes (syntaxTree st)). name n = ''CodeText'' \<and>
                  line_no (doc st) (nfrom n) \<le> l \<and> l \<le> line_no (doc st) (nto n))) \<and>
            set (line_tags (doc st) ds l) \<subseteq>
              {codeBlockStart, codeBlockEnd, codeLineDecorator})))
   \<and> code_tags fenced_3_5 =
       Inr [[], [], [codeBlockStart, codeLineDecorator], [codeLineDecorator],
            [codeLineDecorator, codeBlockEnd], [], []]
   \<and> code_tags fenced_5_5 =
       Inr [[], [], [], [], [codeBlockStart, codeLineDecorator, codeBlockEnd], [], []]
   \<and> code_tags fences_3_5 =
       Inr [[], [], [], [codeBlockStart, codeLineDecorator, codeBlockEnd], [], [], []]"
proof (intro conjI impI)
  assume c: "consistent st"
  let ?d = "doc st" and ?ns = "nodes (syntaxTree st)"
  let ?ds = "sort_key rfrom (concat (map (code_widgets ?d) ?ns))"
  from c have d: "?d \<noteq> []" by (simp add: consistent_def)
  have tag: "deco \<in> set (line_tags ?d ?ds l) \<longleftrightarrow>
      (\<exists>n \<in> set ?ns. name n = ''CodeText'' \<and>
        (deco = codeBlockStart \<and> line_no ?d (nfrom n) = l \<or>
         deco = codeLineDecorator \<and> line_no ?d (nfrom n) \<le> l \<and> l \<le> line_no ?d (nto n) \<or>
         deco = codeBlockEnd \<and> line_no ?d (nto n) = l))"
    if l: "1 \<le> l" "l \<le> length ?d" for l deco
  proof -
    have "deco \<in> set (line_tags ?d ?ds l) \<longleftrightarrow>
        (\<exists>n \<in> set ?ns. \<exists>r \<in> set (code_widgets ?d n).
           rfrom r = line_start ?d l \<and> rvalue r = deco)"
      by (auto simp: line_tags_def)
    also have "\<dots> \<longleftrightarrow> (\<exists>n \<in> set ?ns. name n = ''CodeText'' \<and>
        (deco = codeBlockStart \<and> line_no ?d (nfrom n) = l \<or>
         deco = codeLineDecorator \<and> line_no ?d (nfrom n) \<le> l \<and> l \<le> line_no ?d (nto n) \<or>
         deco = codeBlockEnd \<and> line_no ?d (nto n) = l))"
      using code_widgets_tag [OF d consistent_nodes [OF c] l] by blast
    finally show ?thesis .
  qed
  have ne: "codeBlockStart \<noteq> codeLineDecorator" "codeBlockStart \<noteq> codeBlockEnd"
    "codeLineDecorator \<noteq> codeBlockEnd"
    by (simp_all add: codeBlockStart_def codeLineDecorator_def codeBlockEnd_def)
  show "\<exists>ds. render_code st = Inr ds \<and>
         (\<forall>l. 1 \<le> l \<and> l \<le> length (doc st) \<longrightarrow>
            (codeBlockStart \<in> set (line_tags (doc st) ds l) \<longleftrightarrow>
               (\<exists>n \<in> set (nodes (syntaxTree st)). name n = ''CodeText'' \<and>
                  line_no (doc st) (nfrom n) = l)) \<and>
            (codeBlockEnd \<in> set (line_tags (doc st) ds l) \<longleftrightarrow>
               (\<exists>n \<in> set (nodes (syntaxTree st)). name n = ''CodeText'' \<and>
                  line_no (doc st) (nto n) = l)) \<and>
            (codeLineDecorator \<in> set (line_tags (doc st) ds l) \<longleftrightarrow>
               (\<exists>n \<in> set (nodes (syntaxTree st)). name n = ''CodeText'' \<and>
                  line_no (doc st) (nfrom n) \<le> l \<and> l \<le> line_no (doc st) (nto n))) \<and>
            set (line_tags (doc st) ds l) \<subseteq>
              {codeBlockStart, codeBlockEnd, codeLineDecorator})"
  proof (intro exI [of _ ?ds] conjI allI impI)
    show "render_code st = Inr ?ds" using c by (rule render_code_Inr)
  next
    fix l assume "1 \<le> l \<and> l \<le> length ?d"
    then have l: "1 \<le> l" "l \<le> length ?d" by auto
    show "codeBlockStart \<in> set (line_tags ?d ?ds l) \<longleftrightarrow>
        (\<exists>n \<in> set ?ns. name n = ''CodeText'' \<and> line_no ?d (nfrom n) = l)"
      using ne by (simp add: tag [OF l])
    show "codeBlockEnd \<in> set (line_tags ?d ?ds l) \<longleftrightarrow>
        (\<exists>n \<in> set ?ns. name n = ''CodeText'' \<and> line_no ?d (nto n) = l)"
      using ne by (auto simp add: tag [OF l])
    show "codeLineDecorator \<in> set (line_tags ?d ?ds l) \<longleftrightarrow>
        (\<exists>n \<in> set ?ns. name n = ''CodeText'' \<and>
           line_no ?d (nfrom n) \<le> l \<and> l \<le> line_no ?d (nto n))"
      using ne by (auto simp add: tag [OF l])
    show "set (line_tags ?d ?ds l) \<subseteq> {codeBlockStart, codeBlockEnd, codeLineDecorator}"
      using tag [OF l] by blast
  qed
qed (simp_all add: fenced_3_5_def fenced_5_5_def fences_3_5_def block_eval)

theorem code_block_lines_witness:
  "consistent fenced_3_5 \<and>
   (\<exists>ds. render_code fenced_3_5 = Inr ds \<and>
      codeBlockStart \<in> set (line_tags (doc fenced_3_5) ds 3) \<and>
      codeLineDecorator \<in> set (line_tags (doc fenced_3_5) ds 4) \<and>
      codeBlockEnd \<in> set (line_tags (doc fenced_3_5) ds 5))"
proof -
  let ?n = "SyntaxNode ''CodeText'' 10 27 []"
  let ?d = "doc fenced_3_5" and ?ns = "nodes (syntaxTree fenced_3_5)"
  have c: "consistent fenced_3_5"
    by (simp add: fenced_3_5_def consistent_def nodes_def doc_length_def str_def)
  have n: "?n \<in> set ?ns"
    by (simp add: fenced_3_5_def nodes_def)
  have l: "line_no ?d 10 = 3" "line_no ?d 27 = 5"
    by (simp_all add: fenced_3_5_def line_no_def block_eval)
  have len: "length ?d = 7" by (simp add: fenced_3_5_def)
  from code_block_lines [of fenced_3_5] c obtain ds where
    r: "render_code fenced_3_5 = Inr ds" and
    t: "\<And>l. 1 \<le> l \<and> l \<le> 7 \<Longrightarrow>
      (codeBlockStart \<in> set (line_tags ?d ds l) \<longleftrightarrow>
         (\<exists>n \<in> set ?ns. name n = ''CodeText'' \<and> line_no ?d (nfrom n) = l)) \<and>
      (codeBlockEnd \<in> set (line_tags ?d ds l) \<longleftrightarrow>
         (\<exists>n \<in> set ?ns. name n = ''CodeText'' \<and> line_no ?d (nto n) = l)) \<and>
      (codeLineDecorator \<in> set (line_tags ?d ds l) \<longleftrightarrow>
         (\<exists>n \<in> set ?ns. name n = ''CodeText'' \<and>
            line_no ?d (nfrom n) \<le> l \<and> l \<le> line_no ?d (nto n))) \<and>
      set (line_tags ?d ds l) \<subseteq> {codeBlockStart, codeBlockEnd, codeLineDecorator}"
    unfolding len by blast
  have "\<exists>n \<in> set ?ns. name n = ''CodeText'' \<and> line_no ?d (nfrom n) = 3"
    using n l by (intro bexI [of _ ?n]) simp_all
  moreover have "1 \<le> (3::nat) \<and> (3::nat) \<le> 7" by simp
  ultimately have first: "codeBlockStart \<in> set (line_tags ?d ds 3)"
    using t [of 3] by blast
  have "\<exists>n \<in> set ?ns. name n = ''CodeText'' \<and> line_no ?d (nfrom n) \<le> 4 \<and> 4 \<le> line_no ?d (nto n)"
    using n l by (intro bexI [of _ ?n]) simp_all
  moreover have "1 \<le> (4::nat) \<and> (4::nat) \<le> 7" by simp
  ultimately have middle: "codeLineDecorator \<in> set (line_tags ?d ds 4)"
    using t [of 4] by blast
  have "\<exists>n \<in> set ?ns. name n = ''CodeText'' \<and> line_no ?d (nto n) = 5"
    using n l by (intro bexI [of _ ?n]) simp_all
  moreover have "1 \<le> (5::nat) \<and> (5::nat) \<le> 7" by simp
  ultimately have last: "codeBlockEnd \<in> set (line_tags ?d ds 5)"
    using t [of 5] by blast
  from c r first middle last show ?thesis by blast
qed

text \<open>
  The tags follow the interior node, not the block. The document has one fenced code
  block that spans the lines 3 to 5: the fences are the lines 3 and 5 and line 4 is the
  interior. Line 4 carries all three tags, and the lines 3 and 5 carry none.
\<close>

theorem code_block_fences_counterexample:
  "consistent fences_3_5
   \<and> SyntaxNode ''FencedCode'' 7 20
        [SyntaxNode ''CodeMark'' 7 10 [], SyntaxNode ''CodeText'' 11 16 [],
         SyntaxNode ''CodeMark'' 17 20 []] \<in> set (nodes (syntaxTree fences_3_5))
   \<and> line_no (doc fences_3_5) 7 = 3
   \<and> line_no (doc fences_3_5) 20 = 5
   \<and> code_tags fences_3_5 =
       Inr [[], [], [], [codeBlockStart, codeLineDecorator, codeBlockEnd], [], [], []]"
  by (simp add: fences_3_5_def block_eval line_no_def consistent_def nodes_def)

section \<open>Notions used to state the properties of the heading highlighter\<close>

text \<open>
  The level of a heading node by its type name: the notation with leading \<open>#\<close> marks
  (\<open>ATXHeading\<close>) has the levels 1 to 6, the underlined notation (\<open>SetextHeading\<close>) the
  levels 1 and 2. \<open>size_header k\<close> is the decoration for level \<open>k\<close>.
\<close>

definition heading_level :: "string \<Rightarrow> nat option" where
  "heading_level nm =
     (if nm = ''ATXHeading1'' \<or> nm = ''SetextHeading1'' then Some 1
      else if nm = ''ATXHeading2'' \<or> nm = ''SetextHeading2'' then Some 2
      else if nm = ''ATXHeading3'' then Some 3
      else if nm = ''ATXHeading4'' then Some 4
      else if nm = ''ATXHeading5'' then Some 5
      else if nm = ''ATXHeading6'' then Some 6
      else None)"

definition size_header :: "nat \<Rightarrow> Decoration" where
  "size_header k = [h1, h2, h3, h4, h5, h6] ! (k - 1)"

definition heading_ranges :: "SyntaxNode list \<Rightarrow> range list" where
  "heading_ranges ns =
     concat (map (\<lambda>n. case heading_level (name n) of
                         None \<Rightarrow> []
                       | Some k \<Rightarrow> [range_at (size_header k) (nfrom n)]) ns)"

text \<open>
  The nodes the heading highlighter reaches: the walk descends into the document node and
  into nodes named \<open>ATX...\<close> or \<open>Setext...\<close> only, so a node is reached when all nodes
  above it are of these kinds.
\<close>

definition descends :: "SyntaxNode \<Rightarrow> bool" where
  "descends n \<longleftrightarrow>
     name n = ''Document'' \<or> prefix ''ATX'' (name n) \<or> prefix ''Setext'' (name n)"

definition reached :: "SyntaxNode \<Rightarrow> SyntaxNode list" where
  "reached t = visited descends t"

definition heading_tags :: "EditorState \<Rightarrow> error + Decoration list list" where
  "heading_tags st =
     and_then (render_heading st) (\<lambda>ds.
       Inr (map (line_tags (doc st) ds) [1..<Suc (length (doc st))]))"

text \<open>
  Documents of eleven lines with a level-2 heading on line 1, in either notation, and a
  level-4 heading on line 10; a document whose only heading is inside a block quote; and
  a document whose only heading is indented by one space, so that the heading node starts
  after the space.
\<close>

definition headings_atx :: EditorState where
  "headings_atx =
     \<lparr>doc = map str [''## Two'', [], ''text'', [], [], [], [], [], [], ''#### Four'', ''end''],
      syntaxTree = SyntaxNode ''Document'' 0 32
        [SyntaxNode ''ATXHeading2'' 0 6 [SyntaxNode ''HeaderMark'' 0 2 []],
         SyntaxNode ''Paragraph'' 8 12 [],
         SyntaxNode ''ATXHeading4'' 19 28 [SyntaxNode ''HeaderMark'' 19 23 []],
         SyntaxNode ''Paragraph'' 29 32 []]\<rparr>"

definition headings_setext :: EditorState where
  "headings_setext =
     \<lparr>doc = map str [''Two'', ''---'', ''text'', [], [], [], [], [], [], ''#### Four'', ''end''],
      syntaxTree = SyntaxNode ''Document'' 0 32
        [SyntaxNode ''SetextHeading2'' 0 7 [SyntaxNode ''HeaderMark'' 4 7 []],
         SyntaxNode ''Paragraph'' 8 12 [],
         SyntaxNode ''ATXHeading4'' 19 28 [SyntaxNode ''HeaderMark'' 19 23 []],
         SyntaxNode ''Paragraph'' 29 32 []]\<rparr>"

definition quoted_heading :: EditorState where
  "quoted_heading =
     \<lparr>doc = [str ''> # Title''],
      syntaxTree = SyntaxNode ''Document'' 0 9
        [SyntaxNode ''Blockquote'' 0 9
           [SyntaxNode ''QuoteMark'' 0 1 [],
            SyntaxNode ''ATXHeading1'' 2 9 [SyntaxNode ''HeaderMark'' 2 3 []]]]\<rparr>"

definition indented_heading :: EditorState where
  "indented_heading =
     \<lparr>doc = [str '' ## ind''],
      syntaxTree = SyntaxNode ''Document'' 0 7
        [SyntaxNode ''ATXHeading2'' 1 7 [SyntaxNode ''HeaderMark'' 1 3 []]]\<rparr>"

section \<open>Properties of the heading highlighter\<close>


lemma subseq_sorted:
  fixes xs :: "nat list"
  shows "subseq xs ys \<Longrightarrow> sorted ys \<Longrightarrow> sorted xs"
proof (induction rule: list_emb.induct)
  case (list_emb_Cons2 x y xs ys)
  then have "set xs \<subseteq> set ys" by (auto dest: list_emb_set)
  with list_emb_Cons2 show ?case by auto
qed auto

lemma subseq_concat_map:
  "(\<And>c. c \<in> set cs \<Longrightarrow> subseq (f c) (g c)) \<Longrightarrow>
     subseq (concat (map f cs)) (concat (map g cs))"
  by (induction cs) (auto intro: list_emb_append_mono)

lemma nodes_SyntaxNode:
  "nodes (SyntaxNode nm f t cs) = SyntaxNode nm f t cs # concat (map nodes cs)"
proof -
  have kids: "map (visited (\<lambda>_. True)) cs = map nodes cs"
    by (rule map_cong) (simp_all add: nodes_def)
  have "nodes (SyntaxNode nm f t cs) =
      SyntaxNode nm f t cs # concat (map (visited (\<lambda>_. True)) cs)"
    by (simp add: nodes_def)
  then show ?thesis unfolding kids .
qed

lemma subseq_visited: "subseq (visited p t) (nodes t)"
proof (induction t)
  case (SyntaxNode nm f t cs)
  then have "subseq (concat (map (visited p) cs)) (concat (map nodes cs))"
    by (intro subseq_concat_map)
  then show ?case by (simp add: nodes_SyntaxNode)
qed

lemma map_rfrom_heading_ranges:
  "map rfrom (heading_ranges ns) =
     map nfrom (filter (\<lambda>n. heading_level (name n) \<noteq> None) ns)"
  by (induction ns) (auto simp: heading_ranges_def range_at_def)

lemma sorted_heading_ranges:
  assumes "sorted (map nfrom (nodes t))"
  shows "sorted (map rfrom (heading_ranges (visited p t)))"
proof -
  have "subseq (filter (\<lambda>n. heading_level (name n) \<noteq> None) (visited p t)) (visited p t)"
    by simp
  then have "subseq (filter (\<lambda>n. heading_level (name n) \<noteq> None) (visited p t)) (nodes t)"
    using subseq_visited [of p t] by (rule subseq_order.order_trans)
  then have "subseq (map rfrom (heading_ranges (visited p t))) (map nfrom (nodes t))"
    by (simp add: map_rfrom_heading_ranges subseq_map)
  then show ?thesis using assms by (rule subseq_sorted)
qed


lemma heading_level_prefix:
  "heading_level nm = Some k \<Longrightarrow> prefix ''ATX'' nm \<or> prefix ''Setext'' nm"
  by (auto simp: heading_level_def split: if_splits)

lemma heading_switch_eq: "heading_switch n ws = ws @ heading_ranges [n]"
  by (simp add: heading_switch_def heading_ranges_def heading_level_def size_header_def)

lemma enter_heading_eq:
  "enter_heading n ws = Inr (ws @ heading_ranges [n], descends n)"
proof (cases "descends n \<and> name n \<noteq> ''Document''")
  case True
  then show ?thesis
    by (auto simp: enter_heading_def descends_def heading_switch_eq)
next
  case False
  then have "heading_level (name n) = None"
    using heading_level_prefix [of "name n"]
    by (cases "heading_level (name n)") (auto simp: descends_def heading_level_def)
  then have "heading_ranges [n] = []" by (simp add: heading_ranges_def)
  with False show ?thesis
    by (auto simp: enter_heading_def descends_def)
qed

lemma heading_ranges_concat:
  "concat (map (\<lambda>n. heading_ranges [n]) ns) = heading_ranges ns"
  by (induction ns) (simp_all add: heading_ranges_def)

lemma render_heading_Inr:
  assumes "consistent st"
  shows "render_heading st = Inr (heading_ranges (reached (syntaxTree st)))"
proof -
  have "iterate enter_heading 0 (doc_length (doc st)) (syntaxTree st) [] =
      Inr ([] @ concat (map (\<lambda>n. heading_ranges [n]) (visited descends (syntaxTree st))))"
  proof (rule iterate_visited)
    fix n ws
    show "enter_heading n ws = Inr (ws @ heading_ranges [n], descends n)"
      by (rule enter_heading_eq)
  next
    fix n
    assume "n \<in> set (nodes (syntaxTree st))"
    with assms show "nfrom n \<le> doc_length (doc st) \<and> 0 \<le> nto n"
      by (simp add: consistent_nodes)
  qed
  then have "iterate enter_heading 0 (doc_length (doc st)) (syntaxTree st) [] =
      Inr (heading_ranges (reached (syntaxTree st)))"
    by (simp add: heading_ranges_concat reached_def)
  moreover from assms have "sorted (map rfrom (heading_ranges (reached (syntaxTree st))))"
    unfolding reached_def by (intro sorted_heading_ranges) (simp add: consistent_def)
  ultimately show ?thesis
    by (simp add: render_heading_def and_then_def Decoration_set_def)
qed

lemmas heading_eval =
  heading_tags_def render_heading_def and_then_def Decoration_set_def enter_heading_def
  heading_switch_def doc_length_def line_tags_def line_start_def range_at_def str_def

text \<open>
  The tags of the lines in a consistent state: a line has, for each heading node that the
  walk reaches and that starts at the first character of the line, the size class of the
  level of the node, and nothing else.
\<close>

lemma line_tags_heading_ranges:
  "line_tags d (heading_ranges ns) l =
     map (\<lambda>n. size_header (the (heading_level (name n))))
       (filter (\<lambda>n. heading_level (name n) \<noteq> None \<and> nfrom n = line_start d l) ns)"
  by (induction ns)
     (auto simp: heading_ranges_def line_tags_def range_at_def split: option.splits)

lemma heading_tags_reached:
  assumes "consistent st"
  shows "heading_tags st =
     Inr (map (\<lambda>l. map (\<lambda>n. size_header (the (heading_level (name n))))
                  (filter (\<lambda>n. heading_level (name n) \<noteq> None \<and>
                               nfrom n = line_start (doc st) l)
                     (reached (syntaxTree st))))
            [1..<Suc (length (doc st))])"
  unfolding heading_tags_def render_heading_Inr [OF assms] and_then_def
  by (simp add: line_tags_heading_ranges)

text \<open>
  C9. The heading highlighter is described as tagging the line of every heading node
  with the size class of the level of the node. The size classes are those of the levels
  1 to 6, and the document with a level-2 heading on line 1, in either notation, and a
  level-4 heading on line 10 does get exactly the two tags, size 2 on line 1 and size 4
  on line 10. But two kinds of heading nodes leave their line without a tag. The
  decoration is anchored at the start of the node and not at the start of its line, so
  for the heading of the one-line document \<open> ## ind\<close>, which starts after the space, the
  returned line decoration is at offset 1 and the line has no tag. And the walk does not
  descend into nodes other than the document and the headings, so the heading of
  \<open>> # Title\<close>, a node below the block quote, is never visited: no decoration is returned.
\<close>

theorem heading_line_untagged:
  "consistent indented_heading
   \<and> SyntaxNode ''ATXHeading2'' 1 7 [SyntaxNode ''HeaderMark'' 1 3 []]
       \<in> set (nodes (syntaxTree indented_heading))
   \<and> line_no (doc indented_heading) 1 = 1
   \<and> render_heading indented_heading = Inr [range_at (size_header 2) 1]
   \<and> heading_tags indented_heading = Inr [[]]
   \<and> consistent quoted_heading
   \<and> SyntaxNode ''ATXHeading1'' 2 9 [SyntaxNode ''HeaderMark'' 2 3 []]
       \<in> set (nodes (syntaxTree quoted_heading))
   \<and> line_no (doc quoted_heading) 2 = 1
   \<and> render_heading quoted_heading = Inr []
   \<and> heading_tags quoted_heading = Inr [[]]
   \<and> map size_header [1, 2, 3, 4, 5, 6] =
       [Line ''size-header-1'', Line ''size-header-2'', Line ''size-header-3'',
        Line ''size-header-4'', Line ''size-header-5'', Line ''size-header-6'']
   \<and> render_heading headings_atx = Inr [range_at (size_header 2) 0, range_at (size_header 4) 19]
   \<and> heading_tags headings_atx =
       Inr [[size_header 2], [], [], [], [], [], [], [], [], [size_header 4], []]
   \<and> render_heading headings_setext = Inr [range_at (size_header 2) 0, range_at (size_header 4) 19]
   \<and> heading_tags headings_setext =
       Inr [[size_header 2], [], [], [], [], [], [], [], [], [size_header 4], []]"
proof (intro conjI)
  show "consistent indented_heading"
    by (simp add: indented_heading_def consistent_def nodes_def doc_length_def str_def)
  show "SyntaxNode ''ATXHeading2'' 1 7 [SyntaxNode ''HeaderMark'' 1 3 []]
       \<in> set (nodes (syntaxTree indented_heading))"
    by (simp add: indented_heading_def nodes_def)
  show "line_no (doc indented_heading) 1 = 1"
    by (simp add: indented_heading_def line_no_def block_eval)
  show "render_heading indented_heading = Inr [range_at (size_header 2) 1]"
    by (simp add: indented_heading_def heading_eval size_header_def)
  show "heading_tags indented_heading = Inr [[]]"
    by (simp add: indented_heading_def heading_eval size_header_def)
  show "consistent quoted_heading"
    by (simp add: quoted_heading_def consistent_def nodes_def doc_length_def str_def)
  show "SyntaxNode ''ATXHeading1'' 2 9 [SyntaxNode ''HeaderMark'' 2 3 []]
       \<in> set (nodes (syntaxTree quoted_heading))"
    by (simp add: quoted_heading_def nodes_def)
  show "line_no (doc quoted_heading) 2 = 1"
    by (simp add: quoted_heading_def line_no_def block_eval)
  show "render_heading quoted_heading = Inr []"
    by (simp add: quoted_heading_def heading_eval)
  show "heading_tags quoted_heading = Inr [[]]"
    by (simp add: quoted_heading_def heading_eval)
  show "map size_header [1, 2, 3, 4, 5, 6] =
       [Line ''size-header-1'', Line ''size-header-2'', Line ''size-header-3'',
        Line ''size-header-4'', Line ''size-header-5'', Line ''size-header-6'']"
    by (simp add: size_header_def h1_def h2_def h3_def h4_def h5_def h6_def)
qed (simp_all add: headings_atx_def headings_setext_def heading_eval size_header_def)

section \<open>The editor the Chess Renderer works on\<close>

text \<open>
  The command receives the editor handle. What it reads and changes there is modelled
  as a record: the lines of the document (numbered from 0), the two ends of the
  selection (\<open>head\<close> is the end that moves, where the caret is shown, and \<open>anchor\<close> the
  other end; they are equal when nothing is selected), the viewport \<open>{from, to}\<close>, the name of the mode at each position, and the text markers of the
  document, in the order of their creation.
\<close>

type_synonym Pos = "nat \<times> nat"

datatype handler = ClearMarker

datatype content = Empty | Board jsstring | InnerText jsstring

record Element =
  classList :: "string list"
  inner :: content
  onclick :: "handler option"

record TextMarker =
  mfrom :: Pos
  mto :: Pos
  clearOnEnter :: bool
  replacedWith :: Element
  handleMouseEvents :: bool

record Editor =
  lines :: "jsstring list"
  anchor :: Pos
  head :: Pos
  viewport :: "nat \<times> nat"
  modeName :: "Pos \<Rightarrow> string"
  marks :: "TextMarker list"

text \<open>Positions are compared by line, then by character.\<close>

definition pos_less :: "Pos \<Rightarrow> Pos \<Rightarrow> bool" where
  "pos_less a b \<longleftrightarrow> fst a < fst b \<or> (fst a = fst b \<and> snd a < snd b)"

text \<open>
  \<open>cm.getCursor('from')\<close>: the start of the selection, that is the lesser of its two
  ends. It is the position of the caret unless text is selected forwards.
\<close>

definition cursor :: "Editor \<Rightarrow> Pos" where
  "cursor cm = (if pos_less (head cm) (anchor cm) then head cm else anchor cm)"

definition lineCount :: "Editor \<Rightarrow> nat" where
  "lineCount cm = length (lines cm)"

text \<open>
  \<open>cm.getLine(n)\<close>. Outside the document the host returns \<open>undefined\<close>, which a regular
  expression test reads as the text \<open>undefined\<close>; the reader of a block stays inside the
  document.
\<close>

definition getLine :: "Editor \<Rightarrow> nat \<Rightarrow> jsstring" where
  "getLine cm n = (if n < lineCount cm then lines cm ! n else str ''undefined'')"

text \<open>The host clips every position it is given to the document.\<close>

definition clipPos :: "Editor \<Rightarrow> Pos \<Rightarrow> Pos" where
  "clipPos cm p =
     (if lineCount cm \<le> fst p
        then (lineCount cm - 1, length (getLine cm (lineCount cm - 1)))
      else (fst p, min (snd p) (length (getLine cm (fst p)))))"

text \<open>
  \<open>cm.findMarks(from, to)\<close>: the markers that overlap the range, that is those that start
  before \<open>to\<close> and end after \<open>from\<close>.
\<close>

definition findMarks :: "Editor \<Rightarrow> Pos \<Rightarrow> Pos \<Rightarrow> TextMarker list" where
  "findMarks cm a b =
     filter (\<lambda>m. pos_less (mfrom m) (clipPos cm b) \<and> pos_less (clipPos cm a) (mto m))
       (marks cm)"

text \<open>
  \<open>cm.markText(from, to, options)\<close> with the three options of the source. A marker over
  an empty range is not attached. (The host refuses a replacing marker that partially
  overlaps another one; the command calls \<open>markText\<close> only after \<open>findMarks\<close> has found
  no marker overlapping the range.)
\<close>

definition markText :: "Editor \<Rightarrow> Pos \<Rightarrow> Pos \<Rightarrow> bool \<Rightarrow> Element \<Rightarrow> bool \<Rightarrow> Editor" where
  "markText cm a b coe elem hme =
     (if pos_less (clipPos cm a) (clipPos cm b)
        then cm\<lparr>marks := marks cm @
               [\<lparr>mfrom = clipPos cm a, mto = clipPos cm b, clearOnEnter = coe,
                 replacedWith = elem, handleMouseEvents = hme\<rparr>]\<rparr>
      else cm)"

section \<open>The Chess Renderer: \<open>markdownRenderChess\<close>\<close>

text \<open>The tests \<open>/^```chess/\<close> and \<open>/^```\s*$/\<close>.\<close>

definition is_chess_fence :: "jsstring \<Rightarrow> bool" where
  "is_chess_fence s \<longleftrightarrow> prefix (str ''```chess'') s"

definition is_closing_fence :: "jsstring \<Rightarrow> bool" where
  "is_closing_fence s \<longleftrightarrow> prefix (str ''```'') s \<and> list_all is_space (drop 3 s)"

text \<open>\<open>codeblock.join('\n')\<close>\<close>

fun join_lines :: "jsstring list \<Rightarrow> jsstring" where
  "join_lines [] = []"
| "join_lines [l] = l"
| "join_lines (l # ls) = l @ 10 # join_lines ls"

text \<open>
  The constructor of the board widget belongs to the chess board library. It is a
  parameter of the model: applied to the position text it either succeeds (\<open>None\<close>) or
  throws. What is thrown is an object, an error of the library or of the runtime; of its
  properties the model keeps \<open>message\<close>, where an error object has its detail, and
  \<open>str\<close>, which the source reads (\<open>None\<close> for a property the object does not have; the
  template literal prints such a property as \<open>undefined\<close>). A thrown \<open>null\<close> or
  \<open>undefined\<close>, on which reading a property fails inside the handler itself, is not a
  value of this type: the library throws objects only.
\<close>

datatype thrown = Thrown (message: "jsstring option") (str_property: "jsstring option")

type_synonym board_constructor = "jsstring \<Rightarrow> thrown option"

definition template_text :: "jsstring option \<Rightarrow> jsstring" where
  "template_text v = (case v of None \<Rightarrow> str ''undefined'' | Some s \<Rightarrow> s)"

text \<open>
  The element of the widget: the \<open>div\<close> of class \<open>chessboard\<close>, the \<open>try\<close>/\<open>catch\<close> around
  the constructor, and the click handler the source installs on the element once the
  marker exists.
\<close>

definition make_element :: "board_constructor \<Rightarrow> jsstring \<Rightarrow> Element" where
  "make_element Chessboard code =
     (case Chessboard code of
        None \<Rightarrow>
          \<lparr>classList = [''chessboard''], inner = Board code, onclick = Some ClearMarker\<rparr>
      | Some err \<Rightarrow>
          \<lparr>classList = [''chessboard'', ''error''],
           inner = InnerText (str ''Could not render Chessboard'' @ 10 #
                     template_text (str_property err)),
           onclick = Some ClearMarker\<rparr>)"

text \<open>\<open>currentCursorPosition\<close>: the line of \<open>cm.getCursor('from')\<close>, read once.\<close>

abbreviation currentCursorPosition :: "Editor \<Rightarrow> nat" where
  "currentCursorPosition cm \<equiv> fst (cursor cm)"

text \<open>
  The inner loop, which reads the lines after the opening fence: it stops at the line of
  the cursor, at a closing fence, or at the end of the document. \<open>read_j\<close> is the value of
  \<open>j\<close> when the loop is left.
\<close>

record block =
  read_j :: nat
  cursorInBlock :: bool
  endLine :: nat
  codeblock :: "jsstring list"

function read_block :: "Editor \<Rightarrow> nat \<Rightarrow> nat \<Rightarrow> jsstring list \<Rightarrow> block" where
  "read_block cm startLine j cb =
     (if j < lineCount cm then
        if currentCursorPosition cm = j
          then \<lparr>read_j = j, cursorInBlock = True, endLine = startLine, codeblock = cb\<rparr>
        else if is_closing_fence (getLine cm j)
          then \<lparr>read_j = j, cursorInBlock = False, endLine = j, codeblock = cb\<rparr>
        else read_block cm startLine (Suc j) (cb @ [getLine cm j])
      else \<lparr>read_j = j, cursorInBlock = False, endLine = startLine, codeblock = cb\<rparr>)"
  by pat_completeness auto
termination
  by (relation "measure (\<lambda>(cm, s, j, cb). lineCount cm - j)") auto

declare read_block.simps [simp del]

text \<open>
  The body of the outer loop for the line \<open>i\<close>: the editor afterwards and the value of
  \<open>i\<close> at the end of the body (every \<open>continue\<close> and the end of the body lead to \<open>i++\<close>).
\<close>

definition loop_body :: "board_constructor \<Rightarrow> Editor \<Rightarrow> nat \<Rightarrow> Editor \<times> nat" where
  "loop_body Chessboard cm i =
     (if modeName cm (i, 0) \<noteq> ''markdown-zkn'' then (cm, i)
      else if currentCursorPosition cm = i then (cm, i)
      else if is_chess_fence (getLine cm i) then
        (let b = read_block cm i (i + 1) [];
             startLine = i
         in if cursorInBlock b then (cm, read_j b)
            else if endLine b \<le> startLine then (cm, read_j b)
            else if findMarks cm (startLine, 0) (endLine b, 3) \<noteq> [] then (cm, read_j b)
            else (markText cm (startLine, 0) (endLine b, 3) True
                    (make_element Chessboard (join_lines (codeblock b))) True,
                  read_j b))
      else (cm, i))"

lemma read_block_step:
  "j < lineCount cm \<Longrightarrow> fst (cursor cm) \<noteq> j \<Longrightarrow> \<not> is_closing_fence (getLine cm j) \<Longrightarrow>
     read_block cm s j cb = read_block cm s (Suc j) (cb @ [getLine cm j])"
  by (subst read_block.simps) simp

lemma read_block_cursor:
  "j < lineCount cm \<Longrightarrow> fst (cursor cm) = j \<Longrightarrow>
     read_block cm s j cb = \<lparr>read_j = j, cursorInBlock = True, endLine = s, codeblock = cb\<rparr>"
  by (subst read_block.simps) simp

lemma read_block_fence:
  "j < lineCount cm \<Longrightarrow> fst (cursor cm) \<noteq> j \<Longrightarrow> is_closing_fence (getLine cm j) \<Longrightarrow>
     read_block cm s j cb = \<lparr>read_j = j, cursorInBlock = False, endLine = j, codeblock = cb\<rparr>"
  by (subst read_block.simps) simp

lemma read_block_end:
  "\<not> j < lineCount cm \<Longrightarrow>
     read_block cm s j cb = \<lparr>read_j = j, cursorInBlock = False, endLine = s, codeblock = cb\<rparr>"
  by (subst read_block.simps) simp

lemma read_block_ge: "j \<le> read_j (read_block cm s j cb)"
proof (induction cm s j cb rule: read_block.induct)
  case (1 cm s j cb)
  consider (step) "j < lineCount cm" "fst (cursor cm) \<noteq> j" "\<not> is_closing_fence (getLine cm j)"
    | (cur) "j < lineCount cm" "fst (cursor cm) = j"
    | (fence) "j < lineCount cm" "fst (cursor cm) \<noteq> j" "is_closing_fence (getLine cm j)"
    | (fin) "\<not> j < lineCount cm"
    by blast
  then show ?case
  proof cases
    case step
    with "1.IH" have "Suc j \<le> read_j (read_block cm s (Suc j) (cb @ [getLine cm j]))" by simp
    with step show ?thesis by (simp add: read_block_step)
  next
    case cur
    then show ?thesis by (simp add: read_block_cursor)
  next
    case fence
    then show ?thesis by (simp add: read_block_fence)
  next
    case fin
    then show ?thesis by (simp add: read_block_end)
  qed
qed

lemma viewport_markText: "viewport (markText cm a b c e h) = viewport cm"
  by (simp add: markText_def)

lemma loop_body_ge: "i \<le> snd (loop_body Chessboard cm i)"
proof -
  have "i \<le> read_j (read_block cm i (i + 1) [])"
    using read_block_ge [of "i + 1" cm i "[]"] by simp
  then show ?thesis by (simp add: loop_body_def Let_def)
qed

lemma viewport_loop_body: "viewport (fst (loop_body Chessboard cm i)) = viewport cm"
  by (simp add: loop_body_def Let_def viewport_markText)

function outer_loop :: "board_constructor \<Rightarrow> Editor \<Rightarrow> nat \<Rightarrow> Editor" where
  "outer_loop Chessboard cm i =
     (if i < snd (viewport cm) then
        outer_loop Chessboard (fst (loop_body Chessboard cm i))
          (snd (loop_body Chessboard cm i) + 1)
      else cm)"
  by pat_completeness auto
termination
proof (relation "measure (\<lambda>(cb, cm, i). snd (viewport cm) - i)")
  show "wf (measure (\<lambda>(cb, cm, i). snd (viewport cm) - i))" by simp
next
  fix Chessboard :: board_constructor and cm :: Editor and i :: nat
  assume "i < snd (viewport cm)"
  then show "((Chessboard, fst (loop_body Chessboard cm i), snd (loop_body Chessboard cm i) + 1),
      (Chessboard, cm, i)) \<in> measure (\<lambda>(cb, cm, i). snd (viewport cm) - i)"
    using loop_body_ge [of i Chessboard cm] by (simp add: viewport_loop_body)
qed

declare outer_loop.simps [simp del]

definition markdownRenderChess :: "board_constructor \<Rightarrow> Editor \<Rightarrow> Editor" where
  "markdownRenderChess Chessboard cm = outer_loop Chessboard cm (fst (viewport cm))"

text \<open>
  A document with a chess block on the lines 2 to 6, the cursor on line 0 and all eight
  lines in the viewport.
\<close>

definition ex1 :: Editor where
  "ex1 = \<lparr>lines = map str [''Intro'', [], ''```chess'', ''rnbqkbnr/pppppppp'', ''8/8/8/8'', ''PPPPPPPP/RNBQKBNR'', ''```'', ''after''],
     anchor = (0, 0), head = (0, 0), viewport = (0, 8), modeName = (\<lambda>_. ''markdown-zkn''), marks = []\<rparr>"

section \<open>Properties of the Chess Renderer\<close>


lemma read_block_stop:
  assumes "j \<le> p" "p \<le> lineCount cm"
    and "\<forall>k. j \<le> k \<and> k < p \<longrightarrow> k \<noteq> fst (cursor cm) \<and> \<not> is_closing_fence (getLine cm k)"
  shows "read_block cm s j cb = read_block cm s p (cb @ map (getLine cm) [j..<p])"
  using assms
proof (induction "p - j" arbitrary: j cb)
  case 0
  then show ?case by simp
next
  case (Suc d)
  then have j: "j < p" "j < lineCount cm" "fst (cursor cm) \<noteq> j"
    "\<not> is_closing_fence (getLine cm j)" by auto
  have "read_block cm s j cb = read_block cm s (Suc j) (cb @ [getLine cm j])"
    using j by (simp add: read_block_step)
  also have "\<dots> = read_block cm s p ((cb @ [getLine cm j]) @ map (getLine cm) [Suc j..<p])"
    using Suc.prems Suc.hyps(2) j by (intro Suc.hyps(1)) auto
  also have "(cb @ [getLine cm j]) @ map (getLine cm) [Suc j..<p] = cb @ map (getLine cm) [j..<p]"
    using j(1) by (simp add: upt_conv_Cons)
  finally show ?case .
qed

text \<open>Where the reader of a block stops: at the first line that holds the cursor or is a closing fence, or at the end.\<close>

lemma read_block_result:
  assumes "j \<le> lineCount cm"
  shows "\<exists>p. j \<le> p \<and> p \<le> lineCount cm \<and>
    (\<forall>k. j \<le> k \<and> k < p \<longrightarrow> k \<noteq> fst (cursor cm) \<and> \<not> is_closing_fence (getLine cm k)) \<and>
    (p < lineCount cm \<longrightarrow> fst (cursor cm) = p \<or> is_closing_fence (getLine cm p)) \<and>
    read_block cm s j cb =
      \<lparr>read_j = p, cursorInBlock = (p < lineCount cm \<and> fst (cursor cm) = p),
       endLine = (if p < lineCount cm \<and> fst (cursor cm) \<noteq> p then p else s),
       codeblock = cb @ map (getLine cm) [j..<p]\<rparr>"
  using assms
proof (induction cm s j cb rule: read_block.induct)
  case (1 cm s j cb)
  consider (step) "j < lineCount cm" "fst (cursor cm) \<noteq> j" "\<not> is_closing_fence (getLine cm j)"
    | (cur) "j < lineCount cm" "fst (cursor cm) = j"
    | (fence) "j < lineCount cm" "fst (cursor cm) \<noteq> j" "is_closing_fence (getLine cm j)"
    | (fin) "\<not> j < lineCount cm"
    by blast
  then show ?case
  proof cases
    case step
    with "1.IH" obtain p where p: "Suc j \<le> p" "p \<le> lineCount cm"
      "\<forall>k. Suc j \<le> k \<and> k < p \<longrightarrow> k \<noteq> fst (cursor cm) \<and> \<not> is_closing_fence (getLine cm k)"
      "p < lineCount cm \<longrightarrow> fst (cursor cm) = p \<or> is_closing_fence (getLine cm p)"
      "read_block cm s (Suc j) (cb @ [getLine cm j]) =
        \<lparr>read_j = p, cursorInBlock = (p < lineCount cm \<and> fst (cursor cm) = p),
         endLine = (if p < lineCount cm \<and> fst (cursor cm) \<noteq> p then p else s),
         codeblock = (cb @ [getLine cm j]) @ map (getLine cm) [Suc j..<p]\<rparr>"
      by (metis Suc_leI)
    have all: "\<forall>k. j \<le> k \<and> k < p \<longrightarrow> k \<noteq> fst (cursor cm) \<and> \<not> is_closing_fence (getLine cm k)"
    proof (intro allI impI)
      fix k assume "j \<le> k \<and> k < p"
      then have "k = j \<or> (Suc j \<le> k \<and> k < p)" by auto
      with step p(3) show "k \<noteq> fst (cursor cm) \<and> \<not> is_closing_fence (getLine cm k)" by auto
    qed
    have cb: "(cb @ [getLine cm j]) @ map (getLine cm) [Suc j..<p] = cb @ map (getLine cm) [j..<p]"
      using p(1) by (simp add: upt_conv_Cons)
    show ?thesis
      using p(1,2,4) all p(5) [unfolded cb] step
      by (intro exI [of _ p]) (simp add: read_block_step)
  next
    case cur
    then show ?thesis by (intro exI [of _ j]) (simp add: read_block_cursor)
  next
    case fence
    then show ?thesis by (intro exI [of _ j]) (simp add: read_block_fence)
  next
    case fin
    with "1.prems" show ?thesis by (intro exI [of _ j]) (simp add: read_block_end)
  qed
qed

text \<open>
  \<open>chess_block cm s e\<close>: in the document of \<open>cm\<close> a chess block opens on line \<open>s\<close>, in
  Markdown mode, and \<open>e\<close> is the first closing fence after it. \<open>chess_marker\<close> is the
  marker the command creates for such a block: it replaces the range from the start of
  line \<open>s\<close> to the end of the closing fence by the element made from the lines between.
\<close>

definition chess_block :: "Editor \<Rightarrow> nat \<Rightarrow> nat \<Rightarrow> bool" where
  "chess_block cm s e \<longleftrightarrow>
     s < e \<and> e < lineCount cm \<and>
     modeName cm (s, 0) = ''markdown-zkn'' \<and>
     is_chess_fence (getLine cm s) \<and>
     is_closing_fence (getLine cm e) \<and>
     list_all (\<lambda>k. \<not> is_closing_fence (getLine cm k)) [s + 1..<e]"

definition chess_marker :: "board_constructor \<Rightarrow> Editor \<Rightarrow> nat \<Rightarrow> nat \<Rightarrow> TextMarker" where
  "chess_marker Chessboard cm s e =
     \<lparr>mfrom = (s, 0), mto = (e, 3), clearOnEnter = True,
      replacedWith = make_element Chessboard (join_lines (map (getLine cm) [s + 1..<e])),
      handleMouseEvents = True\<rparr>"

text \<open>
  \<open>created Chessboard cm s m\<close>: \<open>m\<close> is the marker of a chess block that opens on line
  \<open>s\<close>, the cursor is on none of the lines of the block, and no marker of \<open>cm\<close> overlaps
  the range of the block.
\<close>

definition created :: "board_constructor \<Rightarrow> Editor \<Rightarrow> nat \<Rightarrow> TextMarker \<Rightarrow> bool" where
  "created Chessboard cm s m \<longleftrightarrow>
     (\<exists>e. chess_block cm s e \<and>
        (fst (cursor cm) < s \<or> e < fst (cursor cm)) \<and>
        findMarks cm (s, 0) (e, 3) = [] \<and>
        m = chess_marker Chessboard cm s e)"

lemma is_closing_fence_length: "is_closing_fence s \<Longrightarrow> 3 \<le> length s"
proof -
  assume "is_closing_fence s"
  then have "prefix (str ''```'') s" by (simp add: is_closing_fence_def)
  then have "length (str ''```'') \<le> length s" by (rule prefix_length_le)
  then show ?thesis by (simp add: str_def)
qed

lemma not_fence_undefined: "\<not> is_chess_fence (str ''undefined'')"
  by (simp add: is_chess_fence_def str_def)

lemma is_chess_fence_inside: "is_chess_fence (getLine cm i) \<Longrightarrow> i < lineCount cm"
  using not_fence_undefined by (auto simp: getLine_def split: if_splits)

lemma clipPos_start: "s < lineCount cm \<Longrightarrow> clipPos cm (s, 0) = (s, 0)"
  by (simp add: clipPos_def)

lemma clipPos_fence:
  "e < lineCount cm \<Longrightarrow> is_closing_fence (getLine cm e) \<Longrightarrow> clipPos cm (e, 3) = (e, 3)"
  using is_closing_fence_length [of "getLine cm e"] by (simp add: clipPos_def)

lemma marks_update_doc:
  "lineCount (cm\<lparr>marks := ms\<rparr>) = lineCount cm"
  "getLine (cm\<lparr>marks := ms\<rparr>) = getLine cm"
  "clipPos (cm\<lparr>marks := ms\<rparr>) = clipPos cm"
  by (auto simp: lineCount_def getLine_def clipPos_def fun_eq_iff)

lemma cursor_marks [simp]: "cursor (cm\<lparr>marks := ms\<rparr>) = cursor cm"
  by (simp add: cursor_def)

lemma cursor_collapsed [simp]: "cursor (cm\<lparr>anchor := p, head := p\<rparr>) = p"
  by (simp add: cursor_def)

lemma chess_block_marks: "chess_block (cm\<lparr>marks := ms\<rparr>) s e = chess_block cm s e"
  by (simp add: chess_block_def marks_update_doc)

lemma chess_marker_marks:
  "chess_marker Chessboard (cm\<lparr>marks := ms\<rparr>) s e = chess_marker Chessboard cm s e"
  by (simp add: chess_marker_def marks_update_doc)

lemma findMarks_mono:
  "set (marks cm) \<subseteq> set ms \<Longrightarrow> findMarks (cm\<lparr>marks := ms\<rparr>) a b = [] \<Longrightarrow> findMarks cm a b = []"
  by (auto simp: findMarks_def marks_update_doc filter_empty_conv)

lemma created_append:
  assumes "created Chessboard (cm\<lparr>marks := marks cm @ ms\<rparr>) s m"
  shows "created Chessboard cm s m"
proof -
  from assms obtain e where e: "chess_block cm s e"
    "fst (cursor cm) < s \<or> e < fst (cursor cm)"
    "findMarks (cm\<lparr>marks := marks cm @ ms\<rparr>) (s, 0) (e, 3) = []"
    "m = chess_marker Chessboard cm s e"
    unfolding created_def chess_block_marks chess_marker_marks by auto
  from e(3) have "findMarks cm (s, 0) (e, 3) = []"
    by (rule findMarks_mono [rotated]) simp
  with e(1,2,4) show ?thesis unfolding created_def by blast
qed

text \<open>The body of the loop at the opening fence of a block that does not hold the cursor.\<close>

lemma loop_body_block:
  assumes "chess_block cm s e" "fst (cursor cm) < s \<or> e < fst (cursor cm)"
  shows "loop_body Chessboard cm s =
    (if findMarks cm (s, 0) (e, 3) \<noteq> [] then cm
     else cm\<lparr>marks := marks cm @ [chess_marker Chessboard cm s e]\<rparr>, e)"
proof -
  from assms(1) have b: "s < e" "e < lineCount cm" "modeName cm (s, 0) = ''markdown-zkn''"
    "is_chess_fence (getLine cm s)" "is_closing_fence (getLine cm e)"
    "\<forall>k. s + 1 \<le> k \<and> k < e \<longrightarrow> \<not> is_closing_fence (getLine cm k)"
    by (auto simp: chess_block_def list_all_iff)
  from assms(2) b(1) have cur: "fst (cursor cm) \<noteq> s" "fst (cursor cm) \<noteq> e"
    "\<forall>k. s + 1 \<le> k \<and> k < e \<longrightarrow> k \<noteq> fst (cursor cm)"
    by auto
  have "read_block cm s (s + 1) [] = read_block cm s e ([] @ map (getLine cm) [s + 1..<e])"
    using b(1,2,6) cur(3) by (intro read_block_stop) auto
  also have "\<dots> = \<lparr>read_j = e, cursorInBlock = False, endLine = e,
      codeblock = [] @ map (getLine cm) [s + 1..<e]\<rparr>"
    using b(2) cur(2) b(5) by (rule read_block_fence)
  finally have rb: "read_block cm s (s + 1) [] =
      \<lparr>read_j = e, cursorInBlock = False, endLine = e,
       codeblock = map (getLine cm) [s + 1..<e]\<rparr>"
    by simp
  have clip: "clipPos cm (s, 0) = (s, 0)" "clipPos cm (e, 3) = (e, 3)"
    using b(1,2,5) by (simp_all add: clipPos_start clipPos_fence)
  have lt: "pos_less (s, 0) (e, 3)" using b(1) by (simp add: pos_less_def)
  have mt: "markText cm (s, 0) (e, 3) True
      (make_element Chessboard (join_lines (map (getLine cm) [s + 1..<e]))) True =
      cm\<lparr>marks := marks cm @ [chess_marker Chessboard cm s e]\<rparr>"
    by (simp add: markText_def clip lt chess_marker_def)
  show ?thesis
    using b(1,3,4) cur(1) rb mt by (simp add: loop_body_def Let_def)
qed

lemma loop_body_cases:
  "loop_body Chessboard cm i = (cm, snd (loop_body Chessboard cm i)) \<or>
   (\<exists>m. created Chessboard cm i m \<and>
      loop_body Chessboard cm i = (cm\<lparr>marks := marks cm @ [m]\<rparr>, fst (mto m)))"
proof (cases "modeName cm (i, 0) = ''markdown-zkn'' \<and> fst (cursor cm) \<noteq> i \<and>
    is_chess_fence (getLine cm i)")
  case False
  then show ?thesis by (auto simp: loop_body_def)
next
  case True
  then have i: "i < lineCount cm" by (simp add: is_chess_fence_inside)
  then have "i + 1 \<le> lineCount cm" by simp
  from read_block_result [OF this, of i "[]"] obtain p where
    p: "i + 1 \<le> p" "p \<le> lineCount cm"
      "\<forall>k. i + 1 \<le> k \<and> k < p \<longrightarrow> k \<noteq> fst (cursor cm) \<and> \<not> is_closing_fence (getLine cm k)"
      "p < lineCount cm \<longrightarrow> fst (cursor cm) = p \<or> is_closing_fence (getLine cm p)"
    and rb: "read_block cm i (i + 1) [] =
      \<lparr>read_j = p, cursorInBlock = (p < lineCount cm \<and> fst (cursor cm) = p),
       endLine = (if p < lineCount cm \<and> fst (cursor cm) \<noteq> p then p else i),
       codeblock = [] @ map (getLine cm) [i + 1..<p]\<rparr>"
    by blast
  show ?thesis
  proof (cases "p < lineCount cm \<and> fst (cursor cm) \<noteq> p \<and> findMarks cm (i, 0) (p, 3) = []")
    case False
    with True rb show ?thesis by (auto simp: loop_body_def Let_def)
  next
    case emit: True
    with p(4) have fence: "is_closing_fence (getLine cm p)" by simp
    have blk: "chess_block cm i p"
      using True emit p(1,3) fence by (auto simp: chess_block_def list_all_iff)
    have "\<not> (i \<le> fst (cursor cm) \<and> fst (cursor cm) \<le> p)"
    proof
      assume "i \<le> fst (cursor cm) \<and> fst (cursor cm) \<le> p"
      then have "fst (cursor cm) = i \<or> (i + 1 \<le> fst (cursor cm) \<and> fst (cursor cm) < p) \<or>
          fst (cursor cm) = p" by auto
      with True emit p(3) show False by auto
    qed
    then have cur: "fst (cursor cm) < i \<or> p < fst (cursor cm)" by auto
    from loop_body_block [OF blk cur, of Chessboard] emit
    have lb: "loop_body Chessboard cm i =
        (cm\<lparr>marks := marks cm @ [chess_marker Chessboard cm i p]\<rparr>, p)" by simp
    have "created Chessboard cm i (chess_marker Chessboard cm i p)"
      unfolding created_def using blk cur emit by blast
    moreover have "fst (mto (chess_marker Chessboard cm i p)) = p"
      by (simp add: chess_marker_def)
    ultimately show ?thesis using lb
      by (intro disjI2 exI [of _ "chess_marker Chessboard cm i p"]) simp
  qed
qed

lemma outer_loop_step:
  "i < snd (viewport cm) \<Longrightarrow>
     outer_loop Chessboard cm i =
       outer_loop Chessboard (fst (loop_body Chessboard cm i))
         (snd (loop_body Chessboard cm i) + 1)"
  by (subst outer_loop.simps) simp

lemma outer_loop_done: "\<not> i < snd (viewport cm) \<Longrightarrow> outer_loop Chessboard cm i = cm"
  by (subst outer_loop.simps) simp

lemma created_range:
  "created Chessboard cm s m \<Longrightarrow> \<exists>e. s < e \<and> mfrom m = (s, 0) \<and> mto m = (e, 3)"
  by (auto simp: created_def chess_block_def chess_marker_def)

text \<open>
  The pass only appends markers, each created for a block of the viewport, and each
  starting below the end of the one before.
\<close>

lemma outer_loop_marks:
  "\<exists>new. outer_loop Chessboard cm i = cm\<lparr>marks := marks cm @ new\<rparr> \<and>
     (\<forall>m \<in> set new. \<exists>s. i \<le> s \<and> s < snd (viewport cm) \<and> created Chessboard cm s m) \<and>
     sorted_wrt (\<lambda>a b. fst (mto a) < fst (mfrom b)) new"
proof (induction Chessboard cm i rule: outer_loop.induct)
  case (1 Chessboard cm i)
  show ?case
  proof (cases "i < snd (viewport cm)")
    case False
    then have "outer_loop Chessboard cm i = cm\<lparr>marks := marks cm @ []\<rparr>"
      by (simp add: outer_loop_done)
    then show ?thesis by (intro exI [of _ "[]"]) simp
  next
    case True
    let ?cm = "fst (loop_body Chessboard cm i)" and ?i = "snd (loop_body Chessboard cm i)"
    from "1.IH" [OF True] obtain new where
      new: "outer_loop Chessboard ?cm (?i + 1) = ?cm\<lparr>marks := marks ?cm @ new\<rparr>"
        "\<forall>m \<in> set new. \<exists>s. ?i + 1 \<le> s \<and> s < snd (viewport ?cm) \<and> created Chessboard ?cm s m"
        "sorted_wrt (\<lambda>a b. fst (mto a) < fst (mfrom b)) new"
      by blast
    have ge: "i \<le> ?i" by (rule loop_body_ge)
    have step: "outer_loop Chessboard cm i = ?cm\<lparr>marks := marks ?cm @ new\<rparr>"
      using True new(1) by (simp add: outer_loop_step)
    from loop_body_cases [of Chessboard cm i] show ?thesis
    proof
      assume "loop_body Chessboard cm i = (cm, ?i)"
      then have same: "?cm = cm" by (metis fst_conv)
      have "\<forall>m \<in> set new. \<exists>s. i \<le> s \<and> s < snd (viewport cm) \<and> created Chessboard cm s m"
      proof
        fix m assume "m \<in> set new"
        with new(2) obtain s where "?i + 1 \<le> s" "s < snd (viewport ?cm)"
          "created Chessboard ?cm s m" by blast
        with ge same show "\<exists>s. i \<le> s \<and> s < snd (viewport cm) \<and> created Chessboard cm s m"
          by (intro exI [of _ s]) simp
      qed
      with step same new(3) show ?thesis by (intro exI [of _ new]) simp
    next
      assume "\<exists>m. created Chessboard cm i m \<and>
        loop_body Chessboard cm i = (cm\<lparr>marks := marks cm @ [m]\<rparr>, fst (mto m))"
      then obtain m0 where m0: "created Chessboard cm i m0"
        and lb: "loop_body Chessboard cm i = (cm\<lparr>marks := marks cm @ [m0]\<rparr>, fst (mto m0))"
        by blast
      from lb have cm': "?cm = cm\<lparr>marks := marks cm @ [m0]\<rparr>" by (metis fst_conv)
      have "\<forall>m \<in> set (m0 # new).
          \<exists>s. i \<le> s \<and> s < snd (viewport cm) \<and> created Chessboard cm s m"
      proof
        fix m assume "m \<in> set (m0 # new)"
        then consider "m = m0" | "m \<in> set new" by auto
        then show "\<exists>s. i \<le> s \<and> s < snd (viewport cm) \<and> created Chessboard cm s m"
        proof cases
          case 1
          with m0 True show ?thesis by (intro exI [of _ i]) simp
        next
          case 2
          with new(2) obtain s where s: "?i + 1 \<le> s" "s < snd (viewport ?cm)"
            "created Chessboard ?cm s m" by blast
          from s(3) have "created Chessboard cm s m"
            unfolding cm' by (rule created_append)
          with s(1,2) ge show ?thesis
            by (intro exI [of _ s]) (simp add: viewport_loop_body)
        qed
      qed
      moreover from step have "outer_loop Chessboard cm i = cm\<lparr>marks := marks cm @ m0 # new\<rparr>"
        unfolding cm' by simp
      moreover have "\<forall>m \<in> set new. fst (mto m0) < fst (mfrom m)"
      proof
        fix m assume "m \<in> set new"
        with new(2) obtain s where s: "?i + 1 \<le> s" "created Chessboard ?cm s m" by blast
        from lb have "?i = fst (mto m0)" by (metis snd_conv)
        moreover from created_range [OF s(2)] have "fst (mfrom m) = s" by auto
        ultimately show "fst (mto m0) < fst (mfrom m)" using s(1) by simp
      qed
      ultimately show ?thesis using new(3) by (intro exI [of _ "m0 # new"]) simp
    qed
  qed
qed


lemma read_block_marks: "read_block (cm\<lparr>marks := ms\<rparr>) s j cb = read_block cm s j cb"
proof (induction cm s j cb rule: read_block.induct)
  case (1 cm s j cb)
  let ?cm = "cm\<lparr>marks := ms\<rparr>"
  consider (step) "j < lineCount cm" "fst (cursor cm) \<noteq> j" "\<not> is_closing_fence (getLine cm j)"
    | (cur) "j < lineCount cm" "fst (cursor cm) = j"
    | (fence) "j < lineCount cm" "fst (cursor cm) \<noteq> j" "is_closing_fence (getLine cm j)"
    | (fin) "\<not> j < lineCount cm"
    by blast
  then show ?case
  proof cases
    case step
    then have "read_block ?cm s j cb = read_block ?cm s (Suc j) (cb @ [getLine ?cm j])"
      by (intro read_block_step) (simp_all add: marks_update_doc)
    also have "\<dots> = read_block cm s (Suc j) (cb @ [getLine cm j])"
      using step "1.IH" by (simp add: marks_update_doc)
    also have "\<dots> = read_block cm s j cb"
      using step by (simp add: read_block_step)
    finally show ?thesis .
  next
    case cur
    then show ?thesis
      using read_block_cursor [of j cm s cb] read_block_cursor [of j ?cm s cb]
      by (simp add: marks_update_doc)
  next
    case fence
    then show ?thesis
      using read_block_fence [of j cm s cb] read_block_fence [of j ?cm s cb]
      by (simp add: marks_update_doc)
  next
    case fin
    then show ?thesis
      using read_block_end [of j cm s cb] read_block_end [of j ?cm s cb]
      by (simp add: marks_update_doc)
  qed
qed

lemma snd_loop_body:
  "snd (loop_body Chessboard cm i) =
     (if modeName cm (i, 0) = ''markdown-zkn'' \<and> fst (cursor cm) \<noteq> i \<and>
         is_chess_fence (getLine cm i)
      then read_j (read_block cm i (i + 1) []) else i)"
  by (simp add: loop_body_def Let_def)

lemma loop_body_marks_snd:
  "snd (loop_body Chessboard' (cm\<lparr>marks := ms\<rparr>) i) = snd (loop_body Chessboard cm i)"
  unfolding snd_loop_body by (simp add: read_block_marks marks_update_doc)

lemma loop_body_fst:
  "\<exists>ms. fst (loop_body Chessboard cm i) = cm\<lparr>marks := marks cm @ ms\<rparr>"
  using loop_body_cases [of Chessboard cm i]
proof
  assume "loop_body Chessboard cm i = (cm, snd (loop_body Chessboard cm i))"
  then have "fst (loop_body Chessboard cm i) = cm" by (metis fst_conv)
  then show ?thesis by (intro exI [of _ "[]"]) simp
next
  assume "\<exists>m. created Chessboard cm i m \<and>
    loop_body Chessboard cm i = (cm\<lparr>marks := marks cm @ [m]\<rparr>, fst (mto m))"
  then obtain m where
    "loop_body Chessboard cm i = (cm\<lparr>marks := marks cm @ [m]\<rparr>, fst (mto m))" by blast
  then have "fst (loop_body Chessboard cm i) = cm\<lparr>marks := marks cm @ [m]\<rparr>"
    by (metis fst_conv)
  then show ?thesis by blast
qed

lemma findMarks_nonempty:
  "m \<in> set (marks cm) \<Longrightarrow> pos_less (mfrom m) (clipPos cm b) \<Longrightarrow>
     pos_less (clipPos cm a) (mto m) \<Longrightarrow> findMarks cm a b \<noteq> []"
  by (auto simp: findMarks_def filter_empty_conv)

text \<open>
  Once the markers a pass creates are present, the pass creates nothing: every block it
  would mark is found covered.
\<close>

lemma outer_loop_skip:
  assumes "set (marks (outer_loop Chessboard cm i)) \<subseteq> set M"
  shows "outer_loop Chessboard' (cm\<lparr>marks := M\<rparr>) i = cm\<lparr>marks := M\<rparr>"
  using assms
proof (induction Chessboard cm i rule: outer_loop.induct)
  case (1 Chessboard cm i)
  let ?cm2 = "cm\<lparr>marks := M\<rparr>"
  show ?case
  proof (cases "i < snd (viewport cm)")
    case False
    then show ?thesis by (simp add: outer_loop_done)
  next
    case True
    let ?cm1 = "fst (loop_body Chessboard cm i)" and ?i1 = "snd (loop_body Chessboard cm i)"
    have step: "outer_loop Chessboard cm i = outer_loop Chessboard ?cm1 (?i1 + 1)"
      using True by (rule outer_loop_step)
    from loop_body_fst obtain ms where cm1: "?cm1 = cm\<lparr>marks := marks cm @ ms\<rparr>" by blast
    have sub1: "set (marks (outer_loop Chessboard ?cm1 (?i1 + 1))) \<subseteq> set M"
      using "1.prems" step by simp
    from "1.IH" [OF True sub1]
    have IH: "outer_loop Chessboard' (?cm1\<lparr>marks := M\<rparr>) (?i1 + 1) = ?cm1\<lparr>marks := M\<rparr>" .
    have cm1M: "?cm1\<lparr>marks := M\<rparr> = ?cm2" unfolding cm1 by simp
    from outer_loop_marks [of Chessboard ?cm1 "?i1 + 1"] obtain new where
      "outer_loop Chessboard ?cm1 (?i1 + 1) = ?cm1\<lparr>marks := marks ?cm1 @ new\<rparr>" by blast
    with sub1 have in1: "set (marks ?cm1) \<subseteq> set M" by simp
    with cm1 have in0: "set (marks cm) \<subseteq> set M" by simp
    have sndeq: "snd (loop_body Chessboard' ?cm2 i) = ?i1" by (rule loop_body_marks_snd)
    have fsteq: "fst (loop_body Chessboard' ?cm2 i) = ?cm2"
      using loop_body_cases [of Chessboard' ?cm2 i]
    proof
      assume "loop_body Chessboard' ?cm2 i = (?cm2, snd (loop_body Chessboard' ?cm2 i))"
      then show ?thesis by (metis fst_conv)
    next
      assume "\<exists>m. created Chessboard' ?cm2 i m \<and>
        loop_body Chessboard' ?cm2 i = (?cm2\<lparr>marks := marks ?cm2 @ [m]\<rparr>, fst (mto m))"
      then obtain m where "created Chessboard' ?cm2 i m" by blast
      then obtain e where blk: "chess_block cm i e"
        and cur: "fst (cursor cm) < i \<or> e < fst (cursor cm)"
        and none: "findMarks ?cm2 (i, 0) (e, 3) = []"
        unfolding created_def chess_block_marks by auto
      from blk have ie: "i < e" "e < lineCount cm" "is_closing_fence (getLine cm e)"
        by (simp_all add: chess_block_def)
      have clip: "clipPos ?cm2 (i, 0) = (i, 0)" "clipPos ?cm2 (e, 3) = (e, 3)"
        using ie by (simp_all add: marks_update_doc clipPos_start clipPos_fence)
      have False
      proof (cases "findMarks cm (i, 0) (e, 3) = []")
        case False
        with in0 none show False using findMarks_mono by blast
      next
        case True
        with loop_body_block [OF blk cur, of Chessboard]
        have "?cm1 = cm\<lparr>marks := marks cm @ [chess_marker Chessboard cm i e]\<rparr>" by simp
        with in1 have "chess_marker Chessboard cm i e \<in> set (marks ?cm2)" by simp
        moreover have "pos_less (mfrom (chess_marker Chessboard cm i e)) (clipPos ?cm2 (e, 3))"
          "pos_less (clipPos ?cm2 (i, 0)) (mto (chess_marker Chessboard cm i e))"
          using ie(1) unfolding clip by (simp_all add: chess_marker_def pos_less_def)
        ultimately have "findMarks ?cm2 (i, 0) (e, 3) \<noteq> []" by (rule findMarks_nonempty)
        with none show False by simp
      qed
      then show ?thesis ..
    qed
    have "outer_loop Chessboard' ?cm2 i =
        outer_loop Chessboard' (fst (loop_body Chessboard' ?cm2 i))
          (snd (loop_body Chessboard' ?cm2 i) + 1)"
      using True by (intro outer_loop_step) simp
    also have "\<dots> = outer_loop Chessboard' ?cm2 (?i1 + 1)"
      unfolding fsteq sndeq ..
    also have "\<dots> = ?cm2" using IH unfolding cm1M .
    finally show ?thesis .
  qed
qed

lemma markdownRenderChess_marks:
  "\<exists>new. markdownRenderChess Chessboard cm = cm\<lparr>marks := marks cm @ new\<rparr> \<and>
     (\<forall>m \<in> set new. \<exists>s. fst (viewport cm) \<le> s \<and> s < snd (viewport cm) \<and>
        created Chessboard cm s m) \<and>
     sorted_wrt (\<lambda>a b. fst (mto a) < fst (mfrom b)) new"
  unfolding markdownRenderChess_def by (rule outer_loop_marks)

lemma markdownRenderChess_idem:
  "markdownRenderChess Chessboard' (markdownRenderChess Chessboard cm) =
     markdownRenderChess Chessboard cm"
proof -
  let ?r = "outer_loop Chessboard cm (fst (viewport cm))"
  from outer_loop_marks [of Chessboard cm "fst (viewport cm)"] obtain new where
    r: "?r = cm\<lparr>marks := marks cm @ new\<rparr>" by blast
  then have r': "?r = cm\<lparr>marks := marks ?r\<rparr>" by simp
  have "outer_loop Chessboard' (cm\<lparr>marks := marks ?r\<rparr>) (fst (viewport cm)) =
      cm\<lparr>marks := marks ?r\<rparr>"
    by (rule outer_loop_skip [of Chessboard]) simp
  moreover have "fst (viewport ?r) = fst (viewport cm)" unfolding r by simp
  ultimately show ?thesis
    unfolding markdownRenderChess_def using r' by simp
qed

subsection \<open>Examples\<close>

lemmas chess_eval =
  markdownRenderChess_def outer_loop.simps loop_body_def read_block.simps getLine_def
  lineCount_def findMarks_def markText_def clipPos_def pos_less_def is_chess_fence_def
  is_closing_fence_def make_element_def chess_marker_def template_text_def str_def Let_def
  cursor_def

text \<open>A constructor that accepts every position text.\<close>

definition valid :: board_constructor where
  "valid = (\<lambda>code. None)"

subsection \<open>Repeated invocation\<close>

text \<open>
  C5. Invoking the command again on the editor it has just returned changes nothing: the
  second pass creates no further widget. Within one pass the markers created lie below
  each other and none overlaps a marker that existed before, and a block whose range is
  already covered by a marker is passed over and the scan goes on after its closing
  fence. For the block on the lines 2 to 6 with a valid position text and the cursor on
  line 0, one invocation creates exactly one marker, from line 2, character 0, to line 6,
  character 3, showing the board; a second invocation leaves this one marker.
\<close>

theorem render_idempotent:
  "markdownRenderChess Chessboard (markdownRenderChess Chessboard cm) =
     markdownRenderChess Chessboard cm
   \<and> (\<exists>new. markdownRenderChess Chessboard cm = cm\<lparr>marks := marks cm @ new\<rparr> \<and>
         (\<forall>m \<in> set new. findMarks cm (mfrom m) (mto m) = []) \<and>
         sorted_wrt (\<lambda>a b. fst (mto a) < fst (mfrom b)) new)
   \<and> (chess_block cm s e \<and> (fst (cursor cm) < s \<or> e < fst (cursor cm)) \<and>
        findMarks cm (s, 0) (e, 3) \<noteq> [] \<longrightarrow> loop_body Chessboard cm s = (cm, e))
   \<and> marks (markdownRenderChess valid ex1) =
        [\<lparr>mfrom = (2, 0), mto = (6, 3), clearOnEnter = True,
          replacedWith =
            \<lparr>classList = [''chessboard''],
             inner = Board (str ''rnbqkbnr/pppppppp'' @ 10 # str ''8/8/8/8'' @ 10 #
                       str ''PPPPPPPP/RNBQKBNR''),
             onclick = Some ClearMarker\<rparr>,
          handleMouseEvents = True\<rparr>]
   \<and> marks (markdownRenderChess valid (markdownRenderChess valid ex1)) =
        marks (markdownRenderChess valid ex1)"
proof (intro conjI impI)
  show "markdownRenderChess Chessboard (markdownRenderChess Chessboard cm) =
      markdownRenderChess Chessboard cm"
    by (rule markdownRenderChess_idem)
  then show "marks (markdownRenderChess valid (markdownRenderChess valid ex1)) =
      marks (markdownRenderChess valid ex1)"
    by (simp add: markdownRenderChess_idem)
next
  from markdownRenderChess_marks [of Chessboard cm] obtain new where
    new: "markdownRenderChess Chessboard cm = cm\<lparr>marks := marks cm @ new\<rparr>"
      "\<forall>m \<in> set new. \<exists>s. fst (viewport cm) \<le> s \<and> s < snd (viewport cm) \<and>
         created Chessboard cm s m"
      "sorted_wrt (\<lambda>a b. fst (mto a) < fst (mfrom b)) new"
    by blast
  have "\<forall>m \<in> set new. findMarks cm (mfrom m) (mto m) = []"
  proof
    fix m assume "m \<in> set new"
    with new(2) obtain s where "created Chessboard cm s m" by blast
    then show "findMarks cm (mfrom m) (mto m) = []"
      by (auto simp: created_def chess_marker_def)
  qed
  with new(1,3)
  show "\<exists>new. markdownRenderChess Chessboard cm = cm\<lparr>marks := marks cm @ new\<rparr> \<and>
         (\<forall>m \<in> set new. findMarks cm (mfrom m) (mto m) = []) \<and>
         sorted_wrt (\<lambda>a b. fst (mto a) < fst (mfrom b)) new"
    by blast
next
  assume "chess_block cm s e \<and> (fst (cursor cm) < s \<or> e < fst (cursor cm)) \<and>
    findMarks cm (s, 0) (e, 3) \<noteq> []"
  then show "loop_body Chessboard cm s = (cm, e)"
    using loop_body_block [of cm s e Chessboard] by simp
next
  show "marks (markdownRenderChess valid ex1) =
        [\<lparr>mfrom = (2, 0), mto = (6, 3), clearOnEnter = True,
          replacedWith =
            \<lparr>classList = [''chessboard''],
             inner = Board (str ''rnbqkbnr/pppppppp'' @ 10 # str ''8/8/8/8'' @ 10 #
                       str ''PPPPPPPP/RNBQKBNR''),
             onclick = Some ClearMarker\<rparr>,
          handleMouseEvents = True\<rparr>]"
    by (simp add: ex1_def valid_def chess_eval)
qed

theorem render_idempotent_witness:
  "chess_block (markdownRenderChess valid ex1) 2 6
   \<and> fst (cursor (markdownRenderChess valid ex1)) < 2
   \<and> findMarks (markdownRenderChess valid ex1) (2, 0) (6, 3) \<noteq> []
   \<and> loop_body valid (markdownRenderChess valid ex1) 2 = (markdownRenderChess valid ex1, 6)
   \<and> markdownRenderChess valid (markdownRenderChess valid ex1) = markdownRenderChess valid ex1"
proof -
  have r: "markdownRenderChess valid ex1 = ex1\<lparr>marks := [chess_marker valid ex1 2 6]\<rparr>"
    by (simp add: ex1_def valid_def chess_eval)
  have b: "chess_block (markdownRenderChess valid ex1) 2 6"
    unfolding r
    by (simp add: ex1_def chess_block_def lineCount_def getLine_def is_chess_fence_def
        is_closing_fence_def str_def)
  have c: "fst (cursor (markdownRenderChess valid ex1)) < 2"
    unfolding r by (simp add: ex1_def cursor_def pos_less_def)
  have f: "findMarks (markdownRenderChess valid ex1) (2, 0) (6, 3) \<noteq> []"
    unfolding r
    by (simp add: ex1_def findMarks_def chess_marker_def clipPos_def lineCount_def
        getLine_def pos_less_def str_def)
  note idem = render_idempotent [of valid ex1 0 0, THEN conjunct1]
  note skip = render_idempotent [of valid "markdownRenderChess valid ex1" 2 6,
      THEN conjunct2, THEN conjunct2, THEN conjunct1]
  from skip b c f have "loop_body valid (markdownRenderChess valid ex1) 2 =
      (markdownRenderChess valid ex1, 6)" by blast
  with idem b c f show ?thesis by blast
qed

subsection \<open>The cursor inside a block\<close>

lemma loop_body_cursor:
  assumes "modeName cm (s, 0) = ''markdown-zkn''" "is_chess_fence (getLine cm s)"
    and "s \<le> fst (cursor cm)" "fst (cursor cm) < lineCount cm"
    and "list_all (\<lambda>k. \<not> is_closing_fence (getLine cm k)) [s + 1..<fst (cursor cm)]"
  shows "loop_body Chessboard cm s = (cm, fst (cursor cm))"
proof (cases "fst (cursor cm) = s")
  case True
  then show ?thesis by (simp add: loop_body_def)
next
  case False
  let ?c = "fst (cursor cm)"
  from False assms(3) have sc: "s + 1 \<le> ?c" by simp
  have "read_block cm s (s + 1) [] = read_block cm s ?c ([] @ map (getLine cm) [s + 1..<?c])"
    using sc assms(4,5) by (intro read_block_stop) (auto simp: list_all_iff)
  also have "\<dots> = \<lparr>read_j = ?c, cursorInBlock = True, endLine = s,
      codeblock = [] @ map (getLine cm) [s + 1..<?c]\<rparr>"
    using assms(4) by (intro read_block_cursor) simp_all
  finally have "read_block cm s (s + 1) [] =
      \<lparr>read_j = ?c, cursorInBlock = True, endLine = s,
       codeblock = map (getLine cm) [s + 1..<?c]\<rparr>" by simp
  with False assms(1,2) show ?thesis by (simp add: loop_body_def Let_def)
qed

lemma pos_less_total: "\<not> pos_less a b \<Longrightarrow> \<not> pos_less b a \<Longrightarrow> a = b"
  by (cases a, cases b) (auto simp: pos_less_def)

text \<open>
  C6 (as amended). The command reads the start of the selection, not the caret: that is
  the position of the caret when nothing is selected or the selection runs backwards from
  its anchor. When the start of the selection is on the opening fence of a chess block, or
  on a later line with no closing fence between the opening fence and it, the pass
  creates nothing for that block: the lines read so far are dropped, the editor is
  unchanged, and the scan goes on with the line after the start of the selection. In every
  pass, no marker that is created spans the line of the start of the selection. With the
  block on the lines 2 to 6, nothing selected and the caret on line 4, the command returns
  the editor unchanged, without any widget.
\<close>

theorem cursor_in_block:
  "(s < snd (viewport cm) \<and> modeName cm (s, 0) = ''markdown-zkn'' \<and>
    is_chess_fence (getLine cm s) \<and>
    s \<le> fst (cursor cm) \<and> fst (cursor cm) < lineCount cm \<and>
    list_all (\<lambda>k. \<not> is_closing_fence (getLine cm k)) [s + 1..<fst (cursor cm)] \<longrightarrow>
      loop_body Chessboard cm s = (cm, fst (cursor cm)) \<and>
      outer_loop Chessboard cm s = outer_loop Chessboard cm (fst (cursor cm) + 1))
   \<and> (\<exists>new. markdownRenderChess Chessboard cm = cm\<lparr>marks := marks cm @ new\<rparr> \<and>
         (\<forall>m \<in> set new.
            fst (cursor cm) < fst (mfrom m) \<or> fst (mto m) < fst (cursor cm)))
   \<and> markdownRenderChess Chessboard (ex1\<lparr>anchor := (4, 0), head := (4, 0)\<rparr>) =
        ex1\<lparr>anchor := (4, 0), head := (4, 0)\<rparr>
   \<and> marks (markdownRenderChess Chessboard (ex1\<lparr>anchor := (4, 0), head := (4, 0)\<rparr>)) = []
   \<and> (\<not> pos_less (anchor cm) (head cm) \<longrightarrow> cursor cm = head cm)"
proof (intro conjI impI)
  assume a: "s < snd (viewport cm) \<and> modeName cm (s, 0) = ''markdown-zkn'' \<and>
    is_chess_fence (getLine cm s) \<and>
    s \<le> fst (cursor cm) \<and> fst (cursor cm) < lineCount cm \<and>
    list_all (\<lambda>k. \<not> is_closing_fence (getLine cm k)) [s + 1..<fst (cursor cm)]"
  then show lb: "loop_body Chessboard cm s = (cm, fst (cursor cm))"
    by (intro loop_body_cursor) simp_all
  from a have "outer_loop Chessboard cm s =
      outer_loop Chessboard (fst (loop_body Chessboard cm s))
        (snd (loop_body Chessboard cm s) + 1)"
    by (intro outer_loop_step) simp
  then show "outer_loop Chessboard cm s = outer_loop Chessboard cm (fst (cursor cm) + 1)"
    unfolding lb by simp
next
  from markdownRenderChess_marks [of Chessboard cm] obtain new where
    new: "markdownRenderChess Chessboard cm = cm\<lparr>marks := marks cm @ new\<rparr>"
      "\<forall>m \<in> set new. \<exists>s. fst (viewport cm) \<le> s \<and> s < snd (viewport cm) \<and>
         created Chessboard cm s m"
    by blast
  have "\<forall>m \<in> set new. fst (cursor cm) < fst (mfrom m) \<or> fst (mto m) < fst (cursor cm)"
  proof
    fix m assume "m \<in> set new"
    with new(2) obtain s where "created Chessboard cm s m" by blast
    then show "fst (cursor cm) < fst (mfrom m) \<or> fst (mto m) < fst (cursor cm)"
      by (auto simp: created_def chess_marker_def)
  qed
  with new(1)
  show "\<exists>new. markdownRenderChess Chessboard cm = cm\<lparr>marks := marks cm @ new\<rparr> \<and>
         (\<forall>m \<in> set new.
            fst (cursor cm) < fst (mfrom m) \<or> fst (mto m) < fst (cursor cm))"
    by blast
next
  show "markdownRenderChess Chessboard (ex1\<lparr>anchor := (4, 0), head := (4, 0)\<rparr>) = ex1\<lparr>anchor := (4, 0), head := (4, 0)\<rparr>"
    by (simp add: ex1_def chess_eval)
  then show "marks (markdownRenderChess Chessboard (ex1\<lparr>anchor := (4, 0), head := (4, 0)\<rparr>)) = []"
    by (simp add: ex1_def)
next
  assume "\<not> pos_less (anchor cm) (head cm)"
  then show "cursor cm = head cm"
    using pos_less_total [of "head cm" "anchor cm"] by (auto simp: cursor_def)
qed

theorem cursor_in_block_witness:
  "2 < snd (viewport (ex1\<lparr>anchor := (4, 0), head := (4, 0)\<rparr>))
   \<and> modeName (ex1\<lparr>anchor := (4, 0), head := (4, 0)\<rparr>) (2, 0) = ''markdown-zkn''
   \<and> is_chess_fence (getLine (ex1\<lparr>anchor := (4, 0), head := (4, 0)\<rparr>) 2)
   \<and> 2 \<le> fst (cursor (ex1\<lparr>anchor := (4, 0), head := (4, 0)\<rparr>))
   \<and> fst (cursor (ex1\<lparr>anchor := (4, 0), head := (4, 0)\<rparr>)) < lineCount (ex1\<lparr>anchor := (4, 0), head := (4, 0)\<rparr>)
   \<and> list_all (\<lambda>k. \<not> is_closing_fence (getLine (ex1\<lparr>anchor := (4, 0), head := (4, 0)\<rparr>) k)) [2 + 1..<4]
   \<and> loop_body valid (ex1\<lparr>anchor := (4, 0), head := (4, 0)\<rparr>) 2 = (ex1\<lparr>anchor := (4, 0), head := (4, 0)\<rparr>, 4)"
proof -
  let ?cm = "ex1\<lparr>anchor := (4, 0), head := (4, 0)\<rparr>"
  have h: "2 < snd (viewport ?cm)" "modeName ?cm (2, 0) = ''markdown-zkn''"
    "is_chess_fence (getLine ?cm 2)" "2 \<le> fst (cursor ?cm)"
    "fst (cursor ?cm) < lineCount ?cm"
    "list_all (\<lambda>k. \<not> is_closing_fence (getLine ?cm k)) [2 + 1..<fst (cursor ?cm)]"
    by (simp_all add: ex1_def lineCount_def getLine_def is_chess_fence_def
        is_closing_fence_def str_def cursor_def pos_less_def)
  have c: "fst (cursor ?cm) = 4" by simp
  from cursor_in_block [of 2 ?cm valid, THEN conjunct1] h
  have "loop_body valid ?cm 2 = (?cm, fst (cursor ?cm))" by blast
  with h show ?thesis unfolding c by blast
qed

text \<open>
  The caret alone does not decide: with the text from the start of line 0 to the start
  of line 4 selected forwards, the caret is on line 4, inside the block on the lines 2
  to 6, but the start of the selection is on line 0, and the command renders the block.
\<close>

theorem caret_in_block_counterexample:
  "head (ex1\<lparr>anchor := (0, 0), head := (4, 0)\<rparr>) = (4, 0)
   \<and> marks (markdownRenderChess valid (ex1\<lparr>anchor := (0, 0), head := (4, 0)\<rparr>)) =
        [\<lparr>mfrom = (2, 0), mto = (6, 3), clearOnEnter = True,
          replacedWith =
            \<lparr>classList = [''chessboard''],
             inner = Board (str ''rnbqkbnr/pppppppp'' @ 10 # str ''8/8/8/8'' @ 10 #
                       str ''PPPPPPPP/RNBQKBNR''),
             onclick = Some ClearMarker\<rparr>,
          handleMouseEvents = True\<rparr>]"
  by (simp add: ex1_def valid_def chess_eval)


subsection \<open>The checks before a widget is created\<close>

text \<open>An opening fence that is never closed, with the cursor on no line from it on.\<close>

lemma loop_body_unclosed:
  assumes "modeName cm (s, 0) = ''markdown-zkn''" "is_chess_fence (getLine cm s)"
    and "fst (cursor cm) < s \<or> lineCount cm \<le> fst (cursor cm)"
    and "list_all (\<lambda>k. \<not> is_closing_fence (getLine cm k)) [s + 1..<lineCount cm]"
  shows "loop_body Chessboard cm s = (cm, lineCount cm)"
proof -
  from assms(2) have s: "s + 1 \<le> lineCount cm"
    using is_chess_fence_inside [of cm s] by simp
  have "read_block cm s (s + 1) [] =
      read_block cm s (lineCount cm) ([] @ map (getLine cm) [s + 1..<lineCount cm])"
    using s assms(3,4) by (intro read_block_stop) (auto simp: list_all_iff)
  also have "\<dots> = \<lparr>read_j = lineCount cm, cursorInBlock = False, endLine = s,
      codeblock = [] @ map (getLine cm) [s + 1..<lineCount cm]\<rparr>"
    by (intro read_block_end) simp
  finally have "read_block cm s (s + 1) [] =
      \<lparr>read_j = lineCount cm, cursorInBlock = False, endLine = s,
       codeblock = map (getLine cm) [s + 1..<lineCount cm]\<rparr>" by simp
  with assms(1,2,3) s show ?thesis by (auto simp: loop_body_def Let_def)
qed

text \<open>A document whose chess block has no closing fence.\<close>

definition unclosed :: Editor where
  "unclosed =
     \<lparr>lines = map str [''Intro'', ''```chess'', ''8/8/8/8'', ''more text''],
      anchor = (0, 0), head = (0, 0), viewport = (0, 4), modeName = (\<lambda>_. ''markdown-zkn''), marks = []\<rparr>"

text \<open>
  C8. A marker is created only for a range whose end line lies strictly below its start
  line and which no marker present before the pass overlaps; the markers of one pass lie
  below each other, so that none overlaps another. When the end line is not below the
  start line, as for an opening fence that is not closed before the end of the document,
  or when a marker already overlaps the range of the block, the body of the loop returns
  the editor unchanged (no marker, no message) and the scan goes on. The document with an
  unclosed chess block is returned unchanged.
\<close>

theorem emit_checks:
  "(\<exists>new. markdownRenderChess Chessboard cm = cm\<lparr>marks := marks cm @ new\<rparr> \<and>
      (\<forall>m \<in> set new. fst (mfrom m) < fst (mto m) \<and> findMarks cm (mfrom m) (mto m) = []) \<and>
      sorted_wrt (\<lambda>a b. fst (mto a) < fst (mfrom b)) new)
   \<and> (modeName cm (s, 0) = ''markdown-zkn'' \<and> is_chess_fence (getLine cm s) \<and>
       (fst (cursor cm) < s \<or> lineCount cm \<le> fst (cursor cm)) \<and>
       list_all (\<lambda>k. \<not> is_closing_fence (getLine cm k)) [s + 1..<lineCount cm] \<longrightarrow>
         endLine (read_block cm s (s + 1) []) \<le> s \<and>
         loop_body Chessboard cm s = (cm, lineCount cm))
   \<and> (chess_block cm s e \<and> (fst (cursor cm) < s \<or> e < fst (cursor cm)) \<and>
       findMarks cm (s, 0) (e, 3) \<noteq> [] \<longrightarrow> loop_body Chessboard cm s = (cm, e))
   \<and> markdownRenderChess Chessboard unclosed = unclosed"
proof (intro conjI impI)
  from markdownRenderChess_marks [of Chessboard cm] obtain new where
    new: "markdownRenderChess Chessboard cm = cm\<lparr>marks := marks cm @ new\<rparr>"
      "\<forall>m \<in> set new. \<exists>s. fst (viewport cm) \<le> s \<and> s < snd (viewport cm) \<and>
         created Chessboard cm s m"
      "sorted_wrt (\<lambda>a b. fst (mto a) < fst (mfrom b)) new"
    by blast
  have "\<forall>m \<in> set new. fst (mfrom m) < fst (mto m) \<and> findMarks cm (mfrom m) (mto m) = []"
  proof
    fix m assume "m \<in> set new"
    with new(2) obtain s where "created Chessboard cm s m" by blast
    then show "fst (mfrom m) < fst (mto m) \<and> findMarks cm (mfrom m) (mto m) = []"
      by (auto simp: created_def chess_marker_def chess_block_def)
  qed
  with new(1,3)
  show "\<exists>new. markdownRenderChess Chessboard cm = cm\<lparr>marks := marks cm @ new\<rparr> \<and>
      (\<forall>m \<in> set new. fst (mfrom m) < fst (mto m) \<and> findMarks cm (mfrom m) (mto m) = []) \<and>
      sorted_wrt (\<lambda>a b. fst (mto a) < fst (mfrom b)) new"
    by blast
next
  assume a: "modeName cm (s, 0) = ''markdown-zkn'' \<and> is_chess_fence (getLine cm s) \<and>
       (fst (cursor cm) < s \<or> lineCount cm \<le> fst (cursor cm)) \<and>
       list_all (\<lambda>k. \<not> is_closing_fence (getLine cm k)) [s + 1..<lineCount cm]"
  then show "loop_body Chessboard cm s = (cm, lineCount cm)"
    by (intro loop_body_unclosed) simp_all
  from a have s: "s + 1 \<le> lineCount cm"
    using is_chess_fence_inside [of cm s] by simp
  have "read_block cm s (s + 1) [] =
      read_block cm s (lineCount cm) ([] @ map (getLine cm) [s + 1..<lineCount cm])"
    using s a by (intro read_block_stop) (auto simp: list_all_iff)
  also have "\<dots> = \<lparr>read_j = lineCount cm, cursorInBlock = False, endLine = s,
      codeblock = [] @ map (getLine cm) [s + 1..<lineCount cm]\<rparr>"
    by (intro read_block_end) simp
  finally show "endLine (read_block cm s (s + 1) []) \<le> s" by simp
next
  assume "chess_block cm s e \<and> (fst (cursor cm) < s \<or> e < fst (cursor cm)) \<and>
    findMarks cm (s, 0) (e, 3) \<noteq> []"
  then show "loop_body Chessboard cm s = (cm, e)"
    using loop_body_block [of cm s e Chessboard] by simp
next
  show "markdownRenderChess Chessboard unclosed = unclosed"
    by (simp add: unclosed_def chess_eval)
qed

theorem emit_checks_witness:
  "modeName unclosed (1, 0) = ''markdown-zkn''
   \<and> is_chess_fence (getLine unclosed 1)
   \<and> fst (cursor unclosed) < 1
   \<and> list_all (\<lambda>k. \<not> is_closing_fence (getLine unclosed k)) [1 + 1..<lineCount unclosed]
   \<and> endLine (read_block unclosed 1 (1 + 1) []) \<le> 1
   \<and> loop_body valid unclosed 1 = (unclosed, 4)"
proof -
  have h: "modeName unclosed (1, 0) = ''markdown-zkn''" "is_chess_fence (getLine unclosed 1)"
    "fst (cursor unclosed) < 1"
    "list_all (\<lambda>k. \<not> is_closing_fence (getLine unclosed k)) [1 + 1..<lineCount unclosed]"
    by (simp_all add: unclosed_def lineCount_def getLine_def is_chess_fence_def
        is_closing_fence_def str_def cursor_def pos_less_def)
  have n: "lineCount unclosed = 4" by (simp add: unclosed_def lineCount_def)
  from emit_checks [of valid unclosed 1, THEN conjunct2, THEN conjunct1] h
  have "endLine (read_block unclosed 1 (1 + 1) []) \<le> 1 \<and>
      loop_body valid unclosed 1 = (unclosed, lineCount unclosed)" by blast
  with h show ?thesis unfolding n by blast
qed

subsection \<open>Lines in another mode\<close>

text \<open>
  C10. On a line whose mode, asked for at character 0 of the line, is not named
  \<open>markdown-zkn\<close>, the body of the loop does nothing and the scan goes on with the next
  line. Every marker a pass creates starts on a line in that mode; hence a pass over a
  viewport without any line in that mode returns the editor unchanged. The example
  document in the mode \<open>markdown\<close> gets no widget.
\<close>

theorem other_mode_skipped:
  "(modeName cm (i, 0) \<noteq> ''markdown-zkn'' \<longrightarrow> loop_body Chessboard cm i = (cm, i))
   \<and> (\<exists>new. markdownRenderChess Chessboard cm = cm\<lparr>marks := marks cm @ new\<rparr> \<and>
         (\<forall>m \<in> set new. modeName cm (fst (mfrom m), 0) = ''markdown-zkn'' \<and>
            fst (viewport cm) \<le> fst (mfrom m) \<and> fst (mfrom m) < snd (viewport cm)))
   \<and> ((\<forall>l. fst (viewport cm) \<le> l \<and> l < snd (viewport cm) \<longrightarrow>
          modeName cm (l, 0) \<noteq> ''markdown-zkn'') \<longrightarrow>
        markdownRenderChess Chessboard cm = cm)
   \<and> markdownRenderChess Chessboard (ex1\<lparr>modeName := (\<lambda>p. ''markdown'')\<rparr>) =
        ex1\<lparr>modeName := (\<lambda>p. ''markdown'')\<rparr>"
proof -
  from markdownRenderChess_marks [of Chessboard cm] obtain new where
    new: "markdownRenderChess Chessboard cm = cm\<lparr>marks := marks cm @ new\<rparr>"
      "\<forall>m \<in> set new. \<exists>s. fst (viewport cm) \<le> s \<and> s < snd (viewport cm) \<and>
         created Chessboard cm s m"
    by blast
  have md: "\<forall>m \<in> set new. modeName cm (fst (mfrom m), 0) = ''markdown-zkn'' \<and>
      fst (viewport cm) \<le> fst (mfrom m) \<and> fst (mfrom m) < snd (viewport cm)"
  proof
    fix m assume "m \<in> set new"
    with new(2) obtain s where s: "fst (viewport cm) \<le> s" "s < snd (viewport cm)"
      "created Chessboard cm s m" by blast
    from s(3) have "fst (mfrom m) = s" "modeName cm (s, 0) = ''markdown-zkn''"
      by (auto simp: created_def chess_marker_def chess_block_def)
    with s(1,2) show "modeName cm (fst (mfrom m), 0) = ''markdown-zkn'' \<and>
      fst (viewport cm) \<le> fst (mfrom m) \<and> fst (mfrom m) < snd (viewport cm)" by simp
  qed
  have none: "markdownRenderChess Chessboard cm = cm"
    if "\<forall>l. fst (viewport cm) \<le> l \<and> l < snd (viewport cm) \<longrightarrow>
          modeName cm (l, 0) \<noteq> ''markdown-zkn''"
  proof -
    from that md have "new = []" by (cases new) auto
    with new(1) show ?thesis by simp
  qed
  have body: "loop_body Chessboard cm i = (cm, i)" if "modeName cm (i, 0) \<noteq> ''markdown-zkn''"
    using that by (simp add: loop_body_def)
  have ex: "markdownRenderChess Chessboard (ex1\<lparr>modeName := (\<lambda>p. ''markdown'')\<rparr>) =
        ex1\<lparr>modeName := (\<lambda>p. ''markdown'')\<rparr>"
    by (simp add: ex1_def chess_eval)
  from body new(1) md none ex show ?thesis by blast
qed

theorem other_mode_skipped_witness:
  "list_all (\<lambda>l. modeName (ex1\<lparr>modeName := (\<lambda>p. ''markdown'')\<rparr>) (l, 0) \<noteq> ''markdown-zkn'')
     [fst (viewport (ex1\<lparr>modeName := (\<lambda>p. ''markdown'')\<rparr>))..<
      snd (viewport (ex1\<lparr>modeName := (\<lambda>p. ''markdown'')\<rparr>))]
   \<and> loop_body valid (ex1\<lparr>modeName := (\<lambda>p. ''markdown'')\<rparr>) 2 =
        (ex1\<lparr>modeName := (\<lambda>p. ''markdown'')\<rparr>, 2)
   \<and> markdownRenderChess valid (ex1\<lparr>modeName := (\<lambda>p. ''markdown'')\<rparr>) =
        ex1\<lparr>modeName := (\<lambda>p. ''markdown'')\<rparr>"
proof -
  let ?cm = "ex1\<lparr>modeName := (\<lambda>p. ''markdown'')\<rparr>"
  have h: "modeName ?cm (l, 0) \<noteq> ''markdown-zkn''" for l by simp
  then have "list_all (\<lambda>l. modeName ?cm (l, 0) \<noteq> ''markdown-zkn'')
      [fst (viewport ?cm)..<snd (viewport ?cm)]"
    by (simp add: list_all_iff)
  moreover from other_mode_skipped [of ?cm 2 valid] h
  have "loop_body valid ?cm 2 = (?cm, 2)" "markdownRenderChess valid ?cm = ?cm"
    by simp_all
  ultimately show ?thesis by blast
qed

subsection \<open>A position text the board constructor rejects\<close>

text \<open>
  What the body of the loop does when the constructor throws on the text of a block that
  is to be rendered: it attaches exactly one marker, over the range of the block, whose
  element has the classes \<open>chessboard\<close> and \<open>error\<close> and the text
  \<open>Could not render Chessboard\<close> followed, on the next line, by the property \<open>str\<close> of
  the thrown value; and the scan goes on with the line after the closing fence.
\<close>

lemma loop_body_thrown:
  assumes "chess_block cm s e" "fst (cursor cm) < s \<or> e < fst (cursor cm)"
    and "findMarks cm (s, 0) (e, 3) = []" "s < snd (viewport cm)"
    and "Chessboard (join_lines (map (getLine cm) [s + 1..<e])) = Some err"
  shows "loop_body Chessboard cm s =
        (cm\<lparr>marks := marks cm @
           [\<lparr>mfrom = (s, 0), mto = (e, 3), clearOnEnter = True,
             replacedWith =
               \<lparr>classList = [''chessboard'', ''error''],
                inner = InnerText (str ''Could not render Chessboard'' @ 10 #
                          template_text (str_property err)),
                onclick = Some ClearMarker\<rparr>,
             handleMouseEvents = True\<rparr>]\<rparr>, e)"
    and "outer_loop Chessboard cm s =
        outer_loop Chessboard (fst (loop_body Chessboard cm s)) (e + 1)"
proof -
  from assms have "loop_body Chessboard cm s =
      (cm\<lparr>marks := marks cm @ [chess_marker Chessboard cm s e]\<rparr>, e)"
    using loop_body_block [of cm s e Chessboard] by simp
  with assms(5) show lb: "loop_body Chessboard cm s =
        (cm\<lparr>marks := marks cm @
           [\<lparr>mfrom = (s, 0), mto = (e, 3), clearOnEnter = True,
             replacedWith =
               \<lparr>classList = [''chessboard'', ''error''],
                inner = InnerText (str ''Could not render Chessboard'' @ 10 #
                          template_text (str_property err)),
                onclick = Some ClearMarker\<rparr>,
             handleMouseEvents = True\<rparr>]\<rparr>, e)"
    by (simp add: chess_marker_def make_element_def)
  from assms(4) have "outer_loop Chessboard cm s =
      outer_loop Chessboard (fst (loop_body Chessboard cm s))
        (snd (loop_body Chessboard cm s) + 1)"
    by (intro outer_loop_step) simp
  then show "outer_loop Chessboard cm s =
      outer_loop Chessboard (fst (loop_body Chessboard cm s)) (e + 1)"
    unfolding lb by simp
qed

text \<open>
  A document with two chess blocks, on the lines 0 to 2 and 4 to 6, and a constructor
  that fails on the text of the first one the way the library does: by throwing an error
  object, which has a \<open>message\<close> and no property \<open>str\<close>.
\<close>

definition two_blocks :: Editor where
  "two_blocks =
     \<lparr>lines = map str [''```chess'', ''not a position'', ''```'', ''text'',
                        ''```chess'', ''8/8/8/8/8/8/8/8'', ''```'', ''end''],
      anchor = (3, 0), head = (3, 0), viewport = (0, 8),
      modeName = (\<lambda>_. ''markdown-zkn''), marks = []\<rparr>"

definition rejecting :: board_constructor where
  "rejecting code =
     (if code = str ''not a position''
        then Some (Thrown (Some (str ''Cannot read properties of undefined'')) None)
      else None)"

text \<open>
  C7. The widget of a block with a rejected position text is described as showing the
  failure detail. On the document above the command does create exactly one widget over
  the first block, of the classes \<open>chessboard\<close> and \<open>error\<close> and without a board, and
  goes on to render the second block. But the text of the error widget is
  \<open>Could not render Chessboard\<close> and, on the next line, \<open>undefined\<close>: the source reads the
  property \<open>str\<close> of the thrown value, and the detail, which an error object carries in
  \<open>message\<close>, is not shown. Only a thrown value that has a property \<open>str\<close> is shown with
  it.
\<close>

theorem malformed_payload:
  "rejecting (join_lines (map (getLine two_blocks) [1..<2])) =
     Some (Thrown (Some (str ''Cannot read properties of undefined'')) None)
   \<and> marks (markdownRenderChess rejecting two_blocks) =
        [\<lparr>mfrom = (0, 0), mto = (2, 3), clearOnEnter = True,
          replacedWith =
            \<lparr>classList = [''chessboard'', ''error''],
             inner = InnerText (str ''Could not render Chessboard'' @ 10 # str ''undefined''),
             onclick = Some ClearMarker\<rparr>,
          handleMouseEvents = True\<rparr>,
         \<lparr>mfrom = (4, 0), mto = (6, 3), clearOnEnter = True,
          replacedWith =
            \<lparr>classList = [''chessboard''], inner = Board (str ''8/8/8/8/8/8/8/8''),
             onclick = Some ClearMarker\<rparr>,
          handleMouseEvents = True\<rparr>]
   \<and> inner (make_element (\<lambda>code. Some (Thrown None (Some (str ''Parse error on line 1'')))) code) =
        InnerText (str ''Could not render Chessboard'' @ 10 # str ''Parse error on line 1'')"
proof (intro conjI)
  show "rejecting (join_lines (map (getLine two_blocks) [1..<2])) =
     Some (Thrown (Some (str ''Cannot read properties of undefined'')) None)"
    by (simp add: rejecting_def two_blocks_def getLine_def lineCount_def str_def upt_conv_Cons)
  show "marks (markdownRenderChess rejecting two_blocks) =
        [\<lparr>mfrom = (0, 0), mto = (2, 3), clearOnEnter = True,
          replacedWith =
            \<lparr>classList = [''chessboard'', ''error''],
             inner = InnerText (str ''Could not render Chessboard'' @ 10 # str ''undefined''),
             onclick = Some ClearMarker\<rparr>,
          handleMouseEvents = True\<rparr>,
         \<lparr>mfrom = (4, 0), mto = (6, 3), clearOnEnter = True,
          replacedWith =
            \<lparr>classList = [''chessboard''], inner = Board (str ''8/8/8/8/8/8/8/8''),
             onclick = Some ClearMarker\<rparr>,
          handleMouseEvents = True\<rparr>]"
    by (simp add: two_blocks_def rejecting_def chess_eval)
  show "inner (make_element (\<lambda>code. Some (Thrown None (Some (str ''Parse error on line 1'')))) code) =
        InnerText (str ''Could not render Chessboard'' @ 10 # str ''Parse error on line 1'')"
    by (simp add: make_element_def template_text_def)
qed

subsection \<open>What removes a widget\<close>

text \<open>
  Two events of the host can remove a marker the command has created. A click on the
  element runs the handler the command installed, which clears the marker. And the
  marker is created with the option \<open>clearOnEnter\<close>, for which the host clears a marker
  by itself as soon as the cursor enters its range, that is, is placed strictly between
  its two ends. \<open>setCursor\<close> and \<open>click\<close> model these two events.
\<close>

definition setCursor :: "Editor \<Rightarrow> Pos \<Rightarrow> Editor" where
  "setCursor cm p =
     cm\<lparr>anchor := p, head := p,
        marks := filter (\<lambda>m. \<not> (clearOnEnter m \<and> pos_less (mfrom m) p \<and> pos_less p (mto m)))
                   (marks cm)\<rparr>"

definition click :: "Editor \<Rightarrow> TextMarker \<Rightarrow> Editor" where
  "click cm m =
     (if onclick (replacedWith m) = Some ClearMarker
        then cm\<lparr>marks := removeAll m (marks cm)\<rparr>
      else cm)"

text \<open>
  C2 (as amended). The command itself never removes a marker: whatever the position of
  the cursor, the markers of the editor it returns are those it was given, followed by
  the new ones. Every marker it creates has the option \<open>clearOnEnter\<close> set and carries the
  click handler; so the widget goes away when it is clicked, and also when the cursor is
  moved into the marked range. For the block on the lines 2 to 6: after rendering, the
  command run again with the cursor on line 4 keeps the marker, a click removes it, and
  so does moving the cursor to line 4.
\<close>

theorem widget_removal:
  "(\<exists>new. markdownRenderChess Chessboard cm = cm\<lparr>marks := marks cm @ new\<rparr> \<and>
      (\<forall>m \<in> set new.
         clearOnEnter m \<and> handleMouseEvents m \<and> onclick (replacedWith m) = Some ClearMarker \<and>
         m \<notin> set (marks (click (markdownRenderChess Chessboard cm) m)) \<and>
         (\<forall>p. pos_less (mfrom m) p \<and> pos_less p (mto m) \<longrightarrow>
            m \<notin> set (marks (setCursor (markdownRenderChess Chessboard cm) p)))))
   \<and> marks (markdownRenderChess valid ((markdownRenderChess valid ex1)\<lparr>anchor := (4, 0), head := (4, 0)\<rparr>)) =
        marks (markdownRenderChess valid ex1)
   \<and> marks (click (markdownRenderChess valid ex1) (chess_marker valid ex1 2 6)) = []
   \<and> marks (setCursor (markdownRenderChess valid ex1) (4, 0)) = []"
proof (intro conjI)
  from markdownRenderChess_marks [of Chessboard cm] obtain new where
    new: "markdownRenderChess Chessboard cm = cm\<lparr>marks := marks cm @ new\<rparr>"
      "\<forall>m \<in> set new. \<exists>s. fst (viewport cm) \<le> s \<and> s < snd (viewport cm) \<and>
         created Chessboard cm s m"
    by blast
  have "\<forall>m \<in> set new.
      clearOnEnter m \<and> handleMouseEvents m \<and> onclick (replacedWith m) = Some ClearMarker \<and>
      m \<notin> set (marks (click (markdownRenderChess Chessboard cm) m)) \<and>
      (\<forall>p. pos_less (mfrom m) p \<and> pos_less p (mto m) \<longrightarrow>
         m \<notin> set (marks (setCursor (markdownRenderChess Chessboard cm) p)))"
  proof
    fix m assume "m \<in> set new"
    with new(2) obtain s e where m: "m = chess_marker Chessboard cm s e"
      by (auto simp: created_def)
    have opts: "clearOnEnter m" "handleMouseEvents m"
      "onclick (replacedWith m) = Some ClearMarker"
      unfolding m by (simp_all add: chess_marker_def make_element_def split: option.splits)
    then have "m \<notin> set (marks (click (markdownRenderChess Chessboard cm) m))"
      by (simp add: click_def)
    moreover have "\<forall>p. pos_less (mfrom m) p \<and> pos_less p (mto m) \<longrightarrow>
        m \<notin> set (marks (setCursor (markdownRenderChess Chessboard cm) p))"
      using opts(1) by (simp add: setCursor_def)
    ultimately show "clearOnEnter m \<and> handleMouseEvents m \<and>
      onclick (replacedWith m) = Some ClearMarker \<and>
      m \<notin> set (marks (click (markdownRenderChess Chessboard cm) m)) \<and>
      (\<forall>p. pos_less (mfrom m) p \<and> pos_less p (mto m) \<longrightarrow>
         m \<notin> set (marks (setCursor (markdownRenderChess Chessboard cm) p)))"
      using opts by blast
  qed
  with new(1)
  show "\<exists>new. markdownRenderChess Chessboard cm = cm\<lparr>marks := marks cm @ new\<rparr> \<and>
      (\<forall>m \<in> set new.
         clearOnEnter m \<and> handleMouseEvents m \<and> onclick (replacedWith m) = Some ClearMarker \<and>
         m \<notin> set (marks (click (markdownRenderChess Chessboard cm) m)) \<and>
         (\<forall>p. pos_less (mfrom m) p \<and> pos_less p (mto m) \<longrightarrow>
            m \<notin> set (marks (setCursor (markdownRenderChess Chessboard cm) p))))"
    by blast
next
  have r: "markdownRenderChess valid ex1 = ex1\<lparr>marks := [chess_marker valid ex1 2 6]\<rparr>"
    by (simp add: ex1_def valid_def chess_eval)
  show "marks (markdownRenderChess valid ((markdownRenderChess valid ex1)\<lparr>anchor := (4, 0), head := (4, 0)\<rparr>)) =
      marks (markdownRenderChess valid ex1)"
    unfolding r by (simp add: ex1_def valid_def chess_eval)
  show "marks (click (markdownRenderChess valid ex1) (chess_marker valid ex1 2 6)) = []"
    unfolding r by (simp add: click_def chess_marker_def make_element_def valid_def)
  show "marks (setCursor (markdownRenderChess valid ex1) (4, 0)) = []"
    unfolding r by (simp add: setCursor_def chess_marker_def pos_less_def)
qed

theorem widget_removal_witness:
  "marks (markdownRenderChess valid ex1) = [chess_marker valid ex1 2 6]
   \<and> clearOnEnter (chess_marker valid ex1 2 6)
   \<and> pos_less (mfrom (chess_marker valid ex1 2 6)) (4, 0)
   \<and> pos_less (4, 0) (mto (chess_marker valid ex1 2 6))
   \<and> chess_marker valid ex1 2 6 \<notin> set (marks (setCursor (markdownRenderChess valid ex1) (4, 0)))"
proof -
  have r: "markdownRenderChess valid ex1 = ex1\<lparr>marks := [chess_marker valid ex1 2 6]\<rparr>"
    by (simp add: ex1_def valid_def chess_eval)
  have e: "marks ex1 = []" by (simp add: ex1_def)
  have p: "pos_less (mfrom (chess_marker valid ex1 2 6)) (4, 0)"
    "pos_less (4, 0) (mto (chess_marker valid ex1 2 6))"
    by (simp_all add: chess_marker_def pos_less_def)
  from widget_removal [of valid ex1, THEN conjunct1] obtain new where
    new: "markdownRenderChess valid ex1 = ex1\<lparr>marks := marks ex1 @ new\<rparr>"
      "\<forall>m \<in> set new. clearOnEnter m \<and>
         (\<forall>p. pos_less (mfrom m) p \<and> pos_less p (mto m) \<longrightarrow>
            m \<notin> set (marks (setCursor (markdownRenderChess valid ex1) p)))"
    by blast
  have "marks (markdownRenderChess valid ex1) = new"
    unfolding new(1) using e by simp
  moreover have m: "marks (markdownRenderChess valid ex1) = [chess_marker valid ex1 2 6]"
    unfolding r by simp
  ultimately have "new = [chess_marker valid ex1 2 6]" by (rule trans [OF sym])
  then have "chess_marker valid ex1 2 6 \<in> set new" by (rule ssubst) simp
  with new(2) p have "clearOnEnter (chess_marker valid ex1 2 6)"
    "chess_marker valid ex1 2 6 \<notin> set (marks (setCursor (markdownRenderChess valid ex1) (4, 0)))"
    by blast+
  with m p show ?thesis by blast
qed


text \<open>
  Moving the cursor into the rendered block does remove the widget: after the command has
  rendered the block on the lines 2 to 6, the host, on the cursor being put on line 4,
  clears the marker, since the command created it with \<open>clearOnEnter\<close>.
\<close>

theorem cursor_enter_counterexample:
  "marks (markdownRenderChess valid ex1) =
     [\<lparr>mfrom = (2, 0), mto = (6, 3), clearOnEnter = True,
       replacedWith =
         \<lparr>classList = [''chessboard''],
          inner = Board (str ''rnbqkbnr/pppppppp'' @ 10 # str ''8/8/8/8'' @ 10 #
                    str ''PPPPPPPP/RNBQKBNR''),
          onclick = Some ClearMarker\<rparr>,
       handleMouseEvents = True\<rparr>]
   \<and> marks (setCursor (markdownRenderChess valid ex1) (4, 0)) = []"
proof -
  have r: "markdownRenderChess valid ex1 = ex1\<lparr>marks := [chess_marker valid ex1 2 6]\<rparr>"
    by (simp add: ex1_def valid_def chess_eval)
  show ?thesis
    unfolding r
    by (simp add: setCursor_def chess_marker_def pos_less_def make_element_def valid_def
        ex1_def getLine_def lineCount_def str_def)
qed

end
